theory Spec2Isabelle
  imports Complex_Main "HOL-Library.Word" "HOL-Library.Log_Nat"
begin

section \<open>Machine types and constants of spausedd.c\<close>

text \<open>
  \<open>uint64_t\<close> is a 64-bit word: \<open>+\<close>, \<open>-\<close> and \<open>*\<close> wrap around, \<open>div\<close> is the
  unsigned division. \<open>int\<close> (32 bits) and \<open>long int\<close> (64 bits, LP64) are words as well,
  read as two's complement through \<open>sint\<close> where the source relies on the sign.
\<close>

type_synonym u64 = "64 word"
type_synonym c_int = "32 word"
type_synonym c_long = "64 word"

definition NO_NS_IN_SEC :: u64 where
  "NO_NS_IN_SEC = 1000000000"

definition NO_NS_IN_MSEC :: u64 where
  "NO_NS_IN_MSEC = 1000000"

definition MAX_TIMEOUT :: nat where
  "MAX_TIMEOUT = 1000 * 60 * 60"

text \<open>\<open>EINTR\<close> comes from \<open>errno.h\<close>; 4 is its value on Linux.\<close>

definition EINTR :: int where
  "EINTR = 4"

section \<open>Double precision values\<close>

text \<open>
  The only floating-point computation of the loop is
  \<open>steal_perc = ((double)steal_diff / tv_diff) * (double)100\<close> and the comparison
  \<open>steal_perc > max_steal_threshold\<close>. A \<open>double\<close> is modelled as IEEE 754 binary64
  with the default rounding (to nearest, ties to even), evaluated in double precision
  (\<open>FLT_EVAL_METHOD = 0\<close>): a finite value is the rational number it denotes. The sign
  of zero is not represented; no operand of the program is negative.
\<close>

datatype double = Finite rat | PlusInf | MinusInf | NaN

text \<open>\<open>flog2 q\<close> is the integer \<open>e\<close> with \<open>2^e \<le> q < 2^(e+1)\<close>, for \<open>q > 0\<close>.\<close>

definition flog2 :: "rat \<Rightarrow> int" where
  "flog2 q = (if 1 \<le> q then bitlen \<lfloor>q\<rfloor> - 1 else - bitlen (\<lceil>1 / q\<rceil> - 1))"

definition round_half_even :: "rat \<Rightarrow> int" where
  "round_half_even m =
     (let n = \<lfloor>m\<rfloor>; f = m - of_int n
      in if f < 1 / 2 then n
         else if 1 / 2 < f then n + 1
         else if even n then n else n + 1)"

text \<open>
  Rounding of an exact result to binary64: 53 significant bits, the exponent of the
  unit in the last place bounded below by \<open>-1074\<close> (subnormal numbers), and overflow
  to infinity when the rounded value reaches \<open>2^1024\<close>, that is when the exponent is
  above 1023 or the significand of a value with exponent 1023 rounds up to \<open>2^53\<close>.
\<close>

definition fl :: "rat \<Rightarrow> double" where
  "fl q =
     (if q = 0 then Finite 0
      else let e = max (flog2 \<bar>q\<bar>) (- 1022);
               u = 2 powi (e - 52);
               n = round_half_even (\<bar>q\<bar> / u)
           in if 1024 \<le> e \<or> (e = 1023 \<and> 2 ^ 53 \<le> n)
              then (if 0 < q then PlusInf else MinusInf)
              else Finite (sgn q * (of_int n * u)))"

text \<open>\<open>(double)x\<close> for an \<open>uint64_t\<close> value \<open>x\<close>.\<close>

definition double_of_u64 :: "u64 \<Rightarrow> double" where
  "double_of_u64 x = fl (of_nat (unat x))"

text \<open>
  Division and multiplication (IEC 60559, Annex F of the C standard): a division of a
  finite non-zero value by zero is an infinity, \<open>0 / 0\<close> is a NaN; neither traps.
\<close>

fun ddiv :: "double \<Rightarrow> double \<Rightarrow> double" where
  "ddiv NaN _ = NaN"
| "ddiv _ NaN = NaN"
| "ddiv (Finite a) (Finite b) =
     (if b = 0 then (if a = 0 then NaN else if 0 < a then PlusInf else MinusInf)
      else fl (a / b))"
| "ddiv (Finite a) _ = Finite 0"
| "ddiv PlusInf (Finite b) = (if b < 0 then MinusInf else PlusInf)"
| "ddiv MinusInf (Finite b) = (if b < 0 then PlusInf else MinusInf)"
| "ddiv _ _ = NaN"

fun dmul :: "double \<Rightarrow> double \<Rightarrow> double" where
  "dmul NaN _ = NaN"
| "dmul _ NaN = NaN"
| "dmul (Finite a) (Finite b) = fl (a * b)"
| "dmul (Finite a) PlusInf = (if a = 0 then NaN else if 0 < a then PlusInf else MinusInf)"
| "dmul (Finite a) MinusInf = (if a = 0 then NaN else if 0 < a then MinusInf else PlusInf)"
| "dmul PlusInf (Finite b) = (if b = 0 then NaN else if 0 < b then PlusInf else MinusInf)"
| "dmul MinusInf (Finite b) = (if b = 0 then NaN else if 0 < b then MinusInf else PlusInf)"
| "dmul PlusInf PlusInf = PlusInf"
| "dmul MinusInf MinusInf = PlusInf"
| "dmul _ _ = MinusInf"

text \<open>\<open>x > y\<close> on doubles: false as soon as one side is a NaN.\<close>

fun dgt :: "double \<Rightarrow> double \<Rightarrow> bool" where
  "dgt NaN _ = False"
| "dgt _ NaN = False"
| "dgt (Finite a) (Finite b) = (b < a)"
| "dgt PlusInf PlusInf = False"
| "dgt PlusInf _ = True"
| "dgt MinusInf _ = False"
| "dgt (Finite a) MinusInf = True"
| "dgt (Finite a) PlusInf = False"

section \<open>The monotonic clock\<close>

record timespec =
  tv_sec :: c_long
  tv_nsec :: c_long

text \<open>
  \<open>nano_current_get\<close>: the value stored by \<open>clock_gettime\<close> is an input; the result of
  that call is not checked by the source. \<open>tv_sec * NO_NS_IN_SEC\<close> is an unsigned 64-bit
  product.
\<close>

definition nano_current_get :: "timespec \<Rightarrow> u64" where
  "nano_current_get ts = tv_sec ts * NO_NS_IN_SEC + tv_nsec ts"

section \<open>The steal time provided by the kernel\<close>

subsection \<open>Reading \<open>/proc/stat\<close> line by line\<close>

text \<open>
  The file is the string of the bytes that can be read from it. \<open>fgets (buf, sz, f)\<close>
  stores at most \<open>sz - 1\<close> bytes, stops after a newline, and returns \<open>NULL\<close> when no
  byte could be read. \<open>take_line\<close> gives the bytes stored and the rest of the file.
\<close>

primrec take_line :: "nat \<Rightarrow> string \<Rightarrow> string \<times> string" where
  "take_line 0 f = ([], f)"
| "take_line (Suc n) f =
     (case f of
        [] \<Rightarrow> ([], [])
      | c # cs \<Rightarrow>
          if c = CHR 0x0A then ([c], cs)
          else (case take_line n cs of (l, r) \<Rightarrow> (c # l, r)))"

definition fgets :: "nat \<Rightarrow> string \<Rightarrow> (string \<times> string) option" where
  "fgets sz f = (if f = [] then None else Some (take_line (sz - 1) f))"

text \<open>The buffer is used as a C string: it ends before the first NUL byte.\<close>

definition c_string :: "string \<Rightarrow> string" where
  "c_string buf = takeWhile (\<lambda>c. c \<noteq> CHR 0x00) buf"

subsection \<open>The \<open>sscanf\<close> call\<close>

text \<open>
  The format is \<open>"cpu %lu %lu %lu %lu %lu %lu %lu %lu"\<close> (\<open>PRIu64\<close> is \<open>lu\<close>). The three
  ordinary characters must be the next characters of the input. A space of the format
  asks for white space to be skipped, which every \<open>%lu\<close> does anyway. \<open>%lu\<close> skips white
  space, takes an optional sign and then decimal digits, at least one; the digits are
  converted as \<open>strtoull\<close> does (glibc): a value out of range is \<open>ULLONG_MAX\<close>, a minus
  sign negates modulo \<open>2^64\<close>. The call returns the number of values assigned, or \<open>EOF\<close>
  (\<open>-1\<close>) when the input ends before the first conversion.
\<close>

definition isspace :: "char \<Rightarrow> bool" where
  "isspace c \<longleftrightarrow> c = CHR 0x20 \<or> c = CHR 0x09 \<or> c = CHR 0x0A \<or> c = CHR 0x0B \<or> c = CHR 0x0C \<or> c = CHR 0x0D"

definition isdigit :: "char \<Rightarrow> bool" where
  "isdigit c \<longleftrightarrow> (48::nat) \<le> of_char c \<and> of_char c \<le> (57::nat)"

definition digit_value :: "char \<Rightarrow> nat" where
  "digit_value c = of_char c - 48"

definition digits_value :: "string \<Rightarrow> nat" where
  "digits_value ds = foldl (\<lambda>a c. 10 * a + digit_value c) 0 ds"

definition strtoull :: "bool \<Rightarrow> string \<Rightarrow> u64" where
  "strtoull neg ds =
     (let n = digits_value ds
      in if 2 ^ 64 \<le> n then - 1
         else if neg then - of_nat n else of_nat n)"

datatype conversion = Conv u64 string | MatchFail | InputFail

definition scan_u64 :: "string \<Rightarrow> conversion" where
  "scan_u64 s =
     (case dropWhile isspace s of
        [] \<Rightarrow> InputFail
      | c # cs \<Rightarrow>
          let neg = (c = CHR ''-'');
              body = (if c = CHR ''-'' \<or> c = CHR ''+'' then cs else c # cs);
              ds = takeWhile isdigit body
          in if ds = [] then MatchFail
             else Conv (strtoull neg ds) (dropWhile isdigit body))"

text \<open>The values assigned by up to \<open>n\<close> conversions in a row, in their order.\<close>

primrec scan_numbers :: "nat \<Rightarrow> string \<Rightarrow> u64 list" where
  "scan_numbers 0 s = []"
| "scan_numbers (Suc n) s =
     (case scan_u64 s of
        Conv v rest \<Rightarrow> v # scan_numbers n rest
      | MatchFail \<Rightarrow> []
      | InputFail \<Rightarrow> [])"

datatype literal_match = LitOk string | LitMismatch | LitInputFail

fun match_literal :: "string \<Rightarrow> string \<Rightarrow> literal_match" where
  "match_literal [] s = LitOk s"
| "match_literal (f # fs) [] = LitInputFail"
| "match_literal (f # fs) (c # cs) = (if c = f then match_literal fs cs else LitMismatch)"

definition sscanf_cpu :: "string \<Rightarrow> int \<times> u64 list" where
  "sscanf_cpu buf =
     (case match_literal ''cpu'' buf of
        LitInputFail \<Rightarrow> (- 1, [])
      | LitMismatch \<Rightarrow> (0, [])
      | LitOk rest \<Rightarrow>
          (case scan_u64 rest of
             InputFail \<Rightarrow> (- 1, [])
           | MatchFail \<Rightarrow> (0, [])
           | Conv v rest' \<Rightarrow> (let vs = scan_numbers 8 rest in (int (length vs), vs))))"

text \<open>
  The eight variables are set to 0 before each call, so the \<open>i\<close>-th one holds the
  \<open>i\<close>-th value assigned, or 0 when the conversions stopped before it.
\<close>

definition scanned_field :: "u64 list \<Rightarrow> nat \<Rightarrow> u64" where
  "scanned_field vs i = (if i < length vs then vs ! i else 0)"

subsection \<open>\<open>nano_stealtime_kernel_get\<close>\<close>

text \<open>
  The function returns \<open>res_steal\<close>; its trace messages are not modelled.
  The integer division \<open>NO_NS_IN_SEC / clock_tick\<close> is undefined for a zero divisor;
  the model returns \<open>Inl DivisionByZero\<close> there. \<open>clock_tick\<close> is a \<open>long int\<close>, converted
  to \<open>unsigned long long\<close> for the division.
\<close>

datatype fault = DivisionByZero

definition steal_of_valid_line :: "u64 list \<Rightarrow> c_long \<Rightarrow> fault + u64" where
  "steal_of_valid_line vs sc_clk_tck =
     (let s_steal = scanned_field vs 7;
          clock_tick = (if sc_clk_tck = - 1 then 100 else sc_clk_tck)
      in if clock_tick = 0 then Inl DivisionByZero
         else (let factor = NO_NS_IN_SEC div clock_tick in Inr (s_steal * factor)))"

text \<open>
  The \<open>while (fgets (...) != NULL)\<close> loop on the rest \<open>f\<close> of the file: the first buffer
  on which \<open>sscanf\<close> returns more than 4 gives the result and ends the loop
  (\<open>break\<close>); when the file ends, the result is the initial \<open>res_steal = 0\<close>.
\<close>

function stat_loop :: "string \<Rightarrow> c_long \<Rightarrow> fault + u64" where
  "stat_loop f sc_clk_tck =
     (case fgets 4096 f of
        None \<Rightarrow> Inr 0
      | Some (buf, f') \<Rightarrow>
          (case sscanf_cpu (c_string buf) of
             (n, vs) \<Rightarrow>
               if 4 < n then steal_of_valid_line vs sc_clk_tck
               else stat_loop f' sc_clk_tck))"
  by pat_completeness auto

text \<open>Each \<open>fgets\<close> that returns a buffer leaves a shorter rest of the file.\<close>

lemma take_line_rest_length:
  "f \<noteq> [] \<Longrightarrow> 0 < n \<Longrightarrow> length (snd (take_line n f)) < length f"
proof (induction n arbitrary: f)
  case 0
  then show ?case by simp
next
  case (Suc n)
  then obtain c cs where f: "f = c # cs" by (cases f) auto
  show ?case
  proof (cases "c = CHR 0x0A \<or> cs = [] \<or> n = 0")
    case True
    then show ?thesis
      by (cases n) (auto simp: f split: prod.splits)
  next
    case False
    then have "length (snd (take_line n cs)) < length cs"
      using Suc.IH [of cs] by simp
    with False show ?thesis
      by (auto simp: f split: prod.splits)
  qed
qed

lemma fgets_rest_length:
  "fgets 4096 f = Some (buf, f') \<Longrightarrow> length f' < length f"
  using take_line_rest_length [of f 4095]
  by (auto simp: fgets_def split: if_splits)

termination stat_loop
  by (relation "measure (\<lambda>(f, clk). length f)") (auto dest: fgets_rest_length)

declare stat_loop.simps [simp del]

text \<open>The file is \<open>None\<close> when \<open>fopen\<close> fails.\<close>

definition nano_stealtime_kernel_get :: "string option \<Rightarrow> c_long \<Rightarrow> fault + u64" where
  "nano_stealtime_kernel_get proc_stat sc_clk_tck =
     (case proc_stat of
        None \<Rightarrow> Inr 0
      | Some f \<Rightarrow> stat_loop f sc_clk_tck)"

section \<open>The steal time provided by the hypervisor guest library\<close>

text \<open>
  \<open>VMGuestLibError\<close> belongs to the vSphere guest SDK; the source only compares it with
  \<open>VMGUESTLIB_ERROR_SUCCESS\<close>. The results of \<open>VMGuestLib_UpdateInfo\<close> and of
  \<open>VMGuestLib_GetCpuStolenMs\<close>, and the value the latter stores, are inputs. The used
  and elapsed milliseconds only feed a trace message and are left out, as are the
  warnings that the function logs when a query fails.
\<close>

datatype VMGuestLibError = VMGUESTLIB_ERROR_SUCCESS | VMGUESTLIB_ERROR_OTHER nat

definition nano_stealtime_vmguestlib_get :: "VMGuestLibError \<Rightarrow> VMGuestLibError \<Rightarrow> u64 \<Rightarrow> u64" where
  "nano_stealtime_vmguestlib_get update_info get_cpu_stolen stolen_ms =
     (if update_info \<noteq> VMGUESTLIB_ERROR_SUCCESS then 0
      else if get_cpu_stolen \<noteq> VMGUESTLIB_ERROR_SUCCESS then 0
      else NO_NS_IN_MSEC * stolen_ms)"

text \<open>What one call of \<open>nano_stealtime_get\<close> finds outside of the program.\<close>

record steal_source =
  proc_stat :: "string option"
  sc_clk_tck :: c_long
  gl_update_info :: VMGuestLibError
  gl_get_cpu_stolen :: VMGuestLibError
  gl_stolen_ms :: u64

definition nano_stealtime_get :: "bool \<Rightarrow> steal_source \<Rightarrow> fault + u64" where
  "nano_stealtime_get use_vmguestlib_stealtime src =
     (if use_vmguestlib_stealtime
      then Inr (nano_stealtime_vmguestlib_get (gl_update_info src) (gl_get_cpu_stolen src)
                  (gl_stolen_ms src))
      else nano_stealtime_kernel_get (proc_stat src) (sc_clk_tck src))"

section \<open>The main poll loop\<close>

subsection \<open>State, signals and observable events\<close>

text \<open>
  The globals and locals that \<open>poll_run\<close> changes. The two flags are \<open>sig_atomic_t\<close>
  values written by the signal handlers.
\<close>

record poll_state =
  times_not_scheduled :: u64
  stop_main_loop :: int
  display_statistics :: int
  poll_timeout :: c_int

text \<open>What stays fixed while the loop runs.\<close>

record poll_config =
  use_vmguestlib_stealtime :: bool
  max_steal_threshold :: double
  tv_max_allowed_diff :: u64
  tv_start :: u64

datatype signal = SIGINT | SIGTERM | SIGUSR1

text \<open>\<open>signal_int_handler\<close> serves SIGINT and SIGTERM, \<open>signal_usr1_handler\<close> SIGUSR1.\<close>

fun signal_handler :: "signal \<Rightarrow> poll_state \<Rightarrow> poll_state" where
  "signal_handler SIGINT s = s\<lparr>stop_main_loop := 1\<rparr>"
| "signal_handler SIGTERM s = s\<lparr>stop_main_loop := 1\<rparr>"
| "signal_handler SIGUSR1 s = s\<lparr>display_statistics := 1\<rparr>"

definition deliver :: "signal list \<Rightarrow> poll_state \<Rightarrow> poll_state" where
  "deliver sigs s = fold signal_handler sigs s"

text \<open>
  The calls of \<open>log_printf\<close> made by \<open>poll_run\<close> and \<open>print_statistics\<close>, with the values
  they print before formatting, and the calls of \<open>poll\<close> with the timeout passed.
\<close>

datatype event =
    LogRunning u64 double
  | LogStatistics u64 u64
  | LogDebugNow u64 u64 c_int u64
  | SysPoll c_int
  | LogPollError int
  | LogNotScheduled u64 u64 u64 double
  | LogStealWarning double
  | LogStopped

text \<open>
  What one iteration meets: the signals delivered before the loop condition is read
  (since the previous iteration read or cleared a flag), before \<open>display_statistics\<close>
  is read, and between that read and \<open>display_statistics = 0\<close>; the two states of the
  steal source, the three clock readings, and what \<open>poll\<close> returns with the \<open>errno\<close>
  it leaves.
\<close>

record iteration =
  sig_top :: "signal list"
  src_prev :: steal_source
  clock_prev :: timespec
  sig_body :: "signal list"
  clock_stats :: timespec
  sig_stats :: "signal list"
  poll_res :: int
  poll_errno :: int
  clock_now :: timespec
  src_now :: steal_source

subsection \<open>\<open>print_statistics\<close>\<close>

definition print_statistics :: "u64 \<Rightarrow> poll_state \<Rightarrow> timespec \<Rightarrow> event" where
  "print_statistics start s ts =
     (let tv_now = nano_current_get ts;
          tv_diff = tv_now - start
      in LogStatistics tv_diff (times_not_scheduled s))"

subsection \<open>One iteration of the loop body\<close>

text \<open>The values computed after \<open>poll\<close> has returned (the lines from \<open>tv_now = ...\<close> on).\<close>

record measurement =
  tv_diff :: u64
  steal_diff :: u64
  steal_perc :: double

definition measure_gap :: "u64 \<Rightarrow> u64 \<Rightarrow> u64 \<Rightarrow> u64 \<Rightarrow> measurement" where
  "measure_gap tv_prev tv_now steal_prev steal_now =
     (let tv_diff = tv_now - tv_prev;
          steal_diff = steal_now - steal_prev;
          steal_perc = dmul (ddiv (double_of_u64 steal_diff) (double_of_u64 tv_diff))
                         (Finite 100)
      in \<lparr>tv_diff = tv_diff, steal_diff = steal_diff, steal_perc = steal_perc\<rparr>)"

text \<open>The \<open>if (tv_diff > tv_max_allowed_diff)\<close> statement.\<close>

definition classify :: "poll_config \<Rightarrow> poll_state \<Rightarrow> measurement \<Rightarrow> event list \<times> poll_state" where
  "classify cfg s m =
     (if tv_max_allowed_diff cfg < tv_diff m
      then ([LogNotScheduled (tv_diff m) (tv_max_allowed_diff cfg) (steal_diff m) (steal_perc m)]
              @ (if dgt (steal_perc m) (max_steal_threshold cfg)
                 then [LogStealWarning (max_steal_threshold cfg)] else []),
            s\<lparr>times_not_scheduled := times_not_scheduled s + 1\<rparr>)
      else ([], s))"

text \<open>The \<open>if (display_statistics)\<close> statement.\<close>

definition show_statistics :: "poll_config \<Rightarrow> poll_state \<Rightarrow> iteration \<Rightarrow> event list \<times> poll_state" where
  "show_statistics cfg s it =
     (if display_statistics s \<noteq> 0
      then ([print_statistics (tv_start cfg) s (clock_stats it)],
            (deliver (sig_stats it) s)\<lparr>display_statistics := 0\<rparr>)
      else ([], s))"

text \<open>The \<open>if (poll_timeout < 0)\<close> statement.\<close>

definition clamp_poll_timeout :: "poll_state \<Rightarrow> poll_state" where
  "clamp_poll_timeout s = (if sint (poll_timeout s) < 0 then s\<lparr>poll_timeout := 0\<rparr> else s)"

datatype step = Continue poll_state | Exited int | Faulted fault

definition poll_body :: "poll_config \<Rightarrow> poll_state \<Rightarrow> iteration \<Rightarrow> event list \<times> step" where
  "poll_body cfg s it =
     (case nano_stealtime_get (use_vmguestlib_stealtime cfg) (src_prev it) of
        Inl flt \<Rightarrow> ([], Faulted flt)
      | Inr steal_prev \<Rightarrow>
          (let tv_prev = nano_current_get (clock_prev it);
               (ev1, s1) = show_statistics cfg (deliver (sig_body it) s) it;
               ev2 = [LogDebugNow tv_prev (tv_max_allowed_diff cfg) (poll_timeout s1) steal_prev];
               s2 = clamp_poll_timeout s1;
               ev3 = [SysPoll (poll_timeout s2)]
           in if poll_res it = - 1 \<and> poll_errno it \<noteq> EINTR
              then (ev1 @ ev2 @ ev3 @ [LogPollError (poll_errno it)], Exited 2)
              else
                (let tv_now = nano_current_get (clock_now it)
                 in case nano_stealtime_get (use_vmguestlib_stealtime cfg) (src_now it) of
                      Inl flt \<Rightarrow> (ev1 @ ev2 @ ev3, Faulted flt)
                    | Inr steal_now \<Rightarrow>
                        (let m = measure_gap tv_prev tv_now steal_prev steal_now;
                             (ev4, s3) = classify cfg s2 m
                         in (ev1 @ ev2 @ ev3 @ ev4, Continue s3)))))"

subsection \<open>\<open>poll_run\<close>\<close>

text \<open>
  The loop runs on the list of what its iterations meet. \<open>Returned\<close> is the normal end
  of \<open>poll_run\<close>, after the final \<open>print_statistics\<close>; \<open>Terminated\<close> is \<open>exit\<close>; the loop is
  still \<open>Running\<close> when the list is used up and no stop has been seen. The list element
  at which the stop is seen gives the clock reading of the final \<open>print_statistics\<close>.
\<close>

datatype run_result =
    Returned poll_state
  | Terminated int
  | Undefined fault
  | Running poll_state

fun poll_loop :: "poll_config \<Rightarrow> poll_state \<Rightarrow> iteration list \<Rightarrow> event list \<times> run_result" where
  "poll_loop cfg s [] = ([], Running s)"
| "poll_loop cfg s (it # its) =
     (let s0 = deliver (sig_top it) s
      in if stop_main_loop s0 \<noteq> 0
         then ([LogStopped, print_statistics (tv_start cfg) s0 (clock_stats it)], Returned s0)
         else
           (case poll_body cfg s0 it of
              (ev, Continue s') \<Rightarrow>
                (case poll_loop cfg s' its of (ev', r) \<Rightarrow> (ev @ ev', r))
            | (ev, Exited status) \<Rightarrow> (ev, Terminated status)
            | (ev, Faulted flt) \<Rightarrow> (ev, Undefined flt)))"

text \<open>
  \<open>poll_run (timeout)\<close>: \<open>g\<close> holds the globals on entry, \<open>thr\<close> is \<open>max_steal_threshold\<close>,
  \<open>ts\<close> the clock reading for \<open>tv_start\<close>. \<open>poll_timeout = timeout / 3\<close> converts an
  \<open>uint64_t\<close> to \<open>int\<close>, keeping the low 32 bits.
\<close>

definition poll_run :: "bool \<Rightarrow> double \<Rightarrow> u64 \<Rightarrow> poll_state \<Rightarrow> timespec \<Rightarrow> iteration list
    \<Rightarrow> event list \<times> run_result" where
  "poll_run use_gl thr timeout g ts its =
     (let cfg = \<lparr>use_vmguestlib_stealtime = use_gl, max_steal_threshold = thr,
                 tv_max_allowed_diff = timeout * NO_NS_IN_MSEC,
                 tv_start = nano_current_get ts\<rparr>;
          s = g\<lparr>poll_timeout := ucast (timeout div 3)\<rparr>
      in case poll_loop cfg s its of
           (ev, r) \<Rightarrow> (LogRunning timeout thr # ev, r))"

section \<open>Notions used to state the properties\<close>

text \<open>The events by their kind: the \<open>Not scheduled\<close> line of an overrun, the steal warning,
  the call of \<open>poll\<close>, the debug line of an iteration.\<close>

fun is_not_scheduled :: "event \<Rightarrow> bool" where
  "is_not_scheduled (LogNotScheduled a b c d) = True"
| "is_not_scheduled _ = False"

text \<open>The elapsed time that an iteration measures: \<open>tv_diff = tv_now - tv_prev\<close>.\<close>

definition elapsed :: "iteration \<Rightarrow> u64" where
  "elapsed it = nano_current_get (clock_now it) - nano_current_get (clock_prev it)"

fun is_steal_warning :: "event \<Rightarrow> bool" where
  "is_steal_warning (LogStealWarning t) = True"
| "is_steal_warning _ = False"

text \<open>The number of overruns reported in a list of events.\<close>

definition overruns :: "event list \<Rightarrow> nat" where
  "overruns ev = length (filter is_not_scheduled ev)"

text \<open>The state in which a run of the loop has left the program, when it has not ended it.\<close>

fun final_state :: "run_result \<Rightarrow> poll_state option" where
  "final_state (Returned s) = Some s"
| "final_state (Running s) = Some s"
| "final_state (Terminated status) = None"
| "final_state (Undefined flt) = None"

fun is_poll_call :: "event \<Rightarrow> bool" where
  "is_poll_call (SysPoll t) = True"
| "is_poll_call _ = False"

fun is_debug_now :: "event \<Rightarrow> bool" where
  "is_debug_now (LogDebugNow a b c d) = True"
| "is_debug_now _ = False"

text \<open>
  Inputs on which the properties are instantiated: a guest library that reports the
  given number of stolen milliseconds, an iteration that takes 300 ms while 200 ms are
  stolen, and \<open>poll_run (200)\<close> with a steal threshold of 10 percent.
\<close>

definition example_source :: "u64 \<Rightarrow> steal_source" where
  "example_source ms =
     \<lparr>proc_stat = None, sc_clk_tck = 100, gl_update_info = VMGUESTLIB_ERROR_SUCCESS,
      gl_get_cpu_stolen = VMGUESTLIB_ERROR_SUCCESS, gl_stolen_ms = ms\<rparr>"

definition late_iteration :: iteration where
  "late_iteration =
     \<lparr>sig_top = [], src_prev = example_source 100, clock_prev = \<lparr>tv_sec = 10, tv_nsec = 0\<rparr>,
      sig_body = [], clock_stats = \<lparr>tv_sec = 10, tv_nsec = 0\<rparr>, sig_stats = [],
      poll_res = 0, poll_errno = 0, clock_now = \<lparr>tv_sec = 10, tv_nsec = 300000000\<rparr>,
      src_now = example_source 300\<rparr>"

definition example_config :: poll_config where
  "example_config =
     \<lparr>use_vmguestlib_stealtime = True, max_steal_threshold = Finite 10,
      tv_max_allowed_diff = 200000000, tv_start = 0\<rparr>"

definition example_state :: poll_state where
  "example_state =
     \<lparr>times_not_scheduled = 0, stop_main_loop = 0, display_statistics = 0, poll_timeout = 66\<rparr>"

text \<open>All the buffers that successive calls of \<open>fgets\<close> return on the file \<open>f\<close>.\<close>

function fgets_lines :: "string \<Rightarrow> string list" where
  "fgets_lines f =
     (case fgets 4096 f of
        None \<Rightarrow> []
      | Some (buf, f') \<Rightarrow> buf # fgets_lines f')"
  by pat_completeness auto

termination fgets_lines
  by (relation "measure length") (auto dest: fgets_rest_length)

text \<open>The decimal numeral of a number, as the kernel prints it.\<close>

definition digit_char :: "nat \<Rightarrow> char" where
  "digit_char d = char_of (48 + d)"

fun decimal :: "nat \<Rightarrow> string" where
  "decimal n = (if n < 10 then [digit_char n] else decimal (n div 10) @ [digit_char (n mod 10)])"

text \<open>A separator between two fields: spaces and tabs, at least one.\<close>

definition blank :: "string \<Rightarrow> bool" where
  "blank ws \<longleftrightarrow> ws \<noteq> [] \<and> set ws \<subseteq> {CHR 0x20, CHR 0x09}"

text \<open>The text of a list of fields, each with the separator in front of it.\<close>

definition fields_text :: "(string \<times> nat) list \<Rightarrow> string" where
  "fields_text fs = concat (map (\<lambda>(ws, n). ws @ decimal n) fs)"

text \<open>Fields as the kernel writes them: a separator and a number that fits 64 bits.\<close>

definition well_formed_fields :: "(string \<times> nat) list \<Rightarrow> bool" where
  "well_formed_fields fs \<longleftrightarrow> list_all (\<lambda>(ws, n). blank ws \<and> n < 2 ^ 64) fs"

text \<open>A text that ends a number standing before it: it is empty or starts with no digit.\<close>

definition ends_number :: "string \<Rightarrow> bool" where
  "ends_number t \<longleftrightarrow> (case t of [] \<Rightarrow> True | c # cs \<Rightarrow> \<not> isdigit c)"

text \<open>The fields of the line \<open>cpu 100 5 50 800 2 1 3 40\<close>, and of a line cut after five fields.\<close>

definition spec_example_fields :: "(string \<times> nat) list" where
  "spec_example_fields =
     [('' '', 100), ('' '', 5), ('' '', 50), ('' '', 800), ('' '', 2), ('' '', 1), ('' '', 3),
      ('' '', 40)]"

definition truncated_example_fields :: "(string \<times> nat) list" where
  "truncated_example_fields = [('' '', 1), ('' '', 2), ('' '', 3), ('' '', 4), ('' '', 5)]"

section \<open>Auxiliary lemmas\<close>

lemma deliver_Nil [simp]: "deliver [] s = s"
  by (simp add: deliver_def)

lemma deliver_Cons [simp]: "deliver (x # xs) s = deliver xs (signal_handler x s)"
  by (simp add: deliver_def)

lemma signal_handler_fields [simp]:
  "times_not_scheduled (signal_handler x s) = times_not_scheduled s"
  "poll_timeout (signal_handler x s) = poll_timeout s"
  by (cases x; simp)+

lemma deliver_times_not_scheduled [simp]:
  "times_not_scheduled (deliver sigs s) = times_not_scheduled s"
  by (induction sigs arbitrary: s) simp_all

lemma deliver_poll_timeout [simp]:
  "poll_timeout (deliver sigs s) = poll_timeout s"
  by (induction sigs arbitrary: s) simp_all

lemma deliver_stop_main_loop:
  "stop_main_loop (deliver sigs s) =
     (if SIGINT \<in> set sigs \<or> SIGTERM \<in> set sigs then 1 else stop_main_loop s)"
proof (induction sigs arbitrary: s)
  case Nil
  then show ?case by simp
next
  case (Cons x xs)
  then show ?case by (cases x) auto
qed

lemma show_statistics_fields [simp]:
  "times_not_scheduled (snd (show_statistics cfg s it)) = times_not_scheduled s"
  "poll_timeout (snd (show_statistics cfg s it)) = poll_timeout s"
  by (simp_all add: show_statistics_def)

lemma clamp_fields [simp]:
  "times_not_scheduled (clamp_poll_timeout s) = times_not_scheduled s"
  "stop_main_loop (clamp_poll_timeout s) = stop_main_loop s"
  by (simp_all add: clamp_poll_timeout_def)

lemma poll_body_Continue:
  assumes "poll_body cfg s it = (ev, Continue s')"
  obtains steal_prev steal_now ev1 s1 ev4 where
    "nano_stealtime_get (use_vmguestlib_stealtime cfg) (src_prev it) = Inr steal_prev"
    "nano_stealtime_get (use_vmguestlib_stealtime cfg) (src_now it) = Inr steal_now"
    "\<not> (poll_res it = - 1 \<and> poll_errno it \<noteq> EINTR)"
    "show_statistics cfg (deliver (sig_body it) s) it = (ev1, s1)"
    "classify cfg (clamp_poll_timeout s1)
       (measure_gap (nano_current_get (clock_prev it)) (nano_current_get (clock_now it))
          steal_prev steal_now) = (ev4, s')"
    "ev = ev1 @ [LogDebugNow (nano_current_get (clock_prev it)) (tv_max_allowed_diff cfg)
                   (poll_timeout s1) steal_prev,
                 SysPoll (poll_timeout (clamp_poll_timeout s1))] @ ev4"
  using assms
  by (auto simp: poll_body_def Let_def split: sum.splits prod.splits if_splits)

lemma show_statistics_events:
  "show_statistics cfg s it = (ev, s') \<Longrightarrow> filter is_not_scheduled ev = []"
  by (auto simp: show_statistics_def print_statistics_def Let_def split: if_splits)

lemma show_statistics_state:
  "show_statistics cfg s it = (ev, s') \<Longrightarrow>
     times_not_scheduled s' = times_not_scheduled s \<and> poll_timeout s' = poll_timeout s"
  by (auto simp: show_statistics_def split: if_splits)

lemma measure_gap_tv_diff [simp]:
  "tv_diff (measure_gap p n sp sn) = n - p"
  by (simp add: measure_gap_def Let_def)

lemma measure_gap_steal_diff [simp]:
  "steal_diff (measure_gap p n sp sn) = sn - sp"
  by (simp add: measure_gap_def Let_def)

lemma classify_overruns:
  "classify cfg s m = (ev, s') \<Longrightarrow>
     filter is_not_scheduled ev =
       (if tv_max_allowed_diff cfg < tv_diff m
        then [LogNotScheduled (tv_diff m) (tv_max_allowed_diff cfg) (steal_diff m) (steal_perc m)]
        else [])"
  by (auto simp: classify_def split: if_splits)

lemma classify_counter:
  "classify cfg s m = (ev, s') \<Longrightarrow>
     times_not_scheduled s' =
       times_not_scheduled s + (if tv_max_allowed_diff cfg < tv_diff m then 1 else 0)"
  by (auto simp: classify_def split: if_splits)

lemma poll_body_overruns:
  assumes "poll_body cfg s it = (ev, Continue s')"
  shows "overruns ev = (if tv_max_allowed_diff cfg < elapsed it then 1 else 0)"
    and "times_not_scheduled s' =
           times_not_scheduled s + (if tv_max_allowed_diff cfg < elapsed it then 1 else 0)"
proof -
  from assms obtain steal_prev steal_now ev1 s1 ev4 where
    st: "show_statistics cfg (deliver (sig_body it) s) it = (ev1, s1)" and
    cl: "classify cfg (clamp_poll_timeout s1)
       (measure_gap (nano_current_get (clock_prev it)) (nano_current_get (clock_now it))
          steal_prev steal_now) = (ev4, s')" and
    ev: "ev = ev1 @ [LogDebugNow (nano_current_get (clock_prev it)) (tv_max_allowed_diff cfg)
                   (poll_timeout s1) steal_prev,
                 SysPoll (poll_timeout (clamp_poll_timeout s1))] @ ev4"
    by (rule poll_body_Continue)
  show "overruns ev = (if tv_max_allowed_diff cfg < elapsed it then 1 else 0)"
    using show_statistics_events [OF st] classify_overruns [OF cl]
    by (simp add: ev overruns_def elapsed_def)
  show "times_not_scheduled s' =
           times_not_scheduled s + (if tv_max_allowed_diff cfg < elapsed it then 1 else 0)"
    using show_statistics_state [OF st] classify_counter [OF cl]
    by (simp add: elapsed_def)
qed

lemma overruns_append [simp]: "overruns (a @ b) = overruns a + overruns b"
  by (simp add: overruns_def)

lemma poll_loop_counter:
  "poll_loop cfg s its = (ev, r) \<Longrightarrow> final_state r = Some s' \<Longrightarrow>
     times_not_scheduled s' = times_not_scheduled s + of_nat (overruns ev)
     \<and> overruns ev \<le> length its"
proof (induction its arbitrary: s ev r)
  case Nil
  then show ?case by (auto simp: overruns_def)
next
  case (Cons it its)
  let ?s0 = "deliver (sig_top it) s"
  show ?case
  proof (cases "stop_main_loop ?s0 \<noteq> 0")
    case True
    with Cons.prems show ?thesis
      by (auto simp: Let_def overruns_def print_statistics_def)
  next
    case False
    obtain ev1 st where pb: "poll_body cfg ?s0 it = (ev1, st)"
      by (cases "poll_body cfg ?s0 it")
    show ?thesis
    proof (cases st)
      case (Continue s1)
      obtain ev2 r2 where pl: "poll_loop cfg s1 its = (ev2, r2)"
        by (cases "poll_loop cfg s1 its")
      from Cons.prems False pb Continue pl have ev: "ev = ev1 @ ev2" and r: "r = r2"
        by (simp_all add: Let_def)
      from Cons.IH [OF pl] Cons.prems(2) r
      have ih: "times_not_scheduled s' = times_not_scheduled s1 + of_nat (overruns ev2)"
        "overruns ev2 \<le> length its" by simp_all
      from poll_body_overruns [OF pb [unfolded Continue]]
      have b: "overruns ev1 = (if tv_max_allowed_diff cfg < elapsed it then 1 else 0)"
        "times_not_scheduled s1 =
           times_not_scheduled s + (if tv_max_allowed_diff cfg < elapsed it then 1 else 0)"
        by simp_all
      show ?thesis using ih b by (auto simp: ev)
    next
      case (Exited x)
      with Cons.prems False pb show ?thesis by (auto simp: Let_def)
    next
      case (Faulted x)
      with Cons.prems False pb show ?thesis by (auto simp: Let_def)
    qed
  qed
qed

lemma poll_body_Exited:
  "poll_body cfg s it = (ev, Exited status) \<Longrightarrow>
     status = 2 \<and> poll_res it = - 1 \<and> poll_errno it \<noteq> EINTR
     \<and> (\<exists>e \<in> set ev. e = LogPollError (poll_errno it))"
  by (auto simp: poll_body_def Let_def split: sum.splits prod.splits if_splits)

lemma poll_body_fatal:
  "nano_stealtime_get (use_vmguestlib_stealtime cfg) (src_prev it) = Inr v \<Longrightarrow>
   poll_res it = - 1 \<Longrightarrow> poll_errno it \<noteq> EINTR \<Longrightarrow>
   snd (poll_body cfg s it) = Exited 2"
  by (auto simp: poll_body_def Let_def split: sum.splits prod.splits if_splits)

lemma show_statistics_poll_res [simp]:
  "show_statistics cfg s (it\<lparr>poll_res := r\<rparr>) = show_statistics cfg s it"
  by (simp add: show_statistics_def)

lemma poll_body_EINTR:
  "poll_errno it = EINTR \<Longrightarrow> poll_body cfg s it = poll_body cfg s (it\<lparr>poll_res := 0\<rparr>)"
  by (simp add: poll_body_def Let_def cong: sum.case_cong)

lemma poll_loop_Terminated:
  "poll_loop cfg s its = (ev, Terminated status) \<Longrightarrow> status = 2"
proof (induction its arbitrary: s ev)
  case Nil
  then show ?case by simp
next
  case (Cons it its)
  then show ?case
    by (auto simp: Let_def split: if_splits prod.splits step.splits dest: poll_body_Exited)
qed

text \<open>The timeout that reaches \<open>poll\<close>: the value of \<open>poll_timeout\<close> after the clamp.\<close>

lemma clamp_poll_timeout_value:
  "poll_timeout (clamp_poll_timeout s) = (if sint (poll_timeout s) < 0 then 0 else poll_timeout s)"
  by (simp add: clamp_poll_timeout_def)

lemma clamp_poll_timeout_nonneg: "0 \<le> sint (poll_timeout (clamp_poll_timeout s))"
  by (simp add: clamp_poll_timeout_def)

lemma classify_poll_timeout:
  "classify cfg s m = (ev, s') \<Longrightarrow>
     poll_timeout s' = poll_timeout s \<and> stop_main_loop s' = stop_main_loop s
     \<and> (\<forall>e \<in> set ev. \<not> is_poll_call e)"
  by (auto simp: classify_def split: if_splits)

lemma poll_body_poll_calls:
  assumes "poll_body cfg s it = (ev, st)"
  shows "(\<forall>e \<in> set ev. is_poll_call e \<longrightarrow> e = SysPoll (poll_timeout (clamp_poll_timeout s)))
    \<and> (\<forall>s'. st = Continue s' \<longrightarrow> poll_timeout s' = poll_timeout (clamp_poll_timeout s))"
  using assms
  by (auto simp: poll_body_def Let_def show_statistics_def print_statistics_def
        clamp_poll_timeout_def classify_def
      split: sum.splits prod.splits if_splits)

lemma poll_loop_poll_calls:
  "poll_loop cfg s its = (ev, r) \<Longrightarrow>
     \<forall>e \<in> set ev. is_poll_call e \<longrightarrow> e = SysPoll (poll_timeout (clamp_poll_timeout s))"
proof (induction its arbitrary: s ev r)
  case Nil
  then show ?case by simp
next
  case (Cons it its)
  let ?s0 = "deliver (sig_top it) s"
  have c0: "poll_timeout (clamp_poll_timeout ?s0) = poll_timeout (clamp_poll_timeout s)"
    by (simp add: clamp_poll_timeout_value)
  show ?case
  proof (cases "stop_main_loop ?s0 \<noteq> 0")
    case True
    with Cons.prems show ?thesis
      by (auto simp: Let_def print_statistics_def)
  next
    case False
    obtain ev1 st where pb: "poll_body cfg ?s0 it = (ev1, st)"
      by (cases "poll_body cfg ?s0 it")
    note b = poll_body_poll_calls [OF pb, unfolded c0]
    show ?thesis
    proof (cases st)
      case (Continue s1)
      obtain ev2 r2 where pl: "poll_loop cfg s1 its = (ev2, r2)"
        by (cases "poll_loop cfg s1 its")
      from Cons.prems False pb Continue pl have ev: "ev = ev1 @ ev2"
        by (simp add: Let_def)
      from b Continue have p1: "poll_timeout s1 = poll_timeout (clamp_poll_timeout s)"
        by simp
      have "poll_timeout (clamp_poll_timeout s1) = poll_timeout (clamp_poll_timeout s)"
        by (simp add: clamp_poll_timeout_value p1)
      with Cons.IH [OF pl] b show ?thesis
        by (auto simp: ev)
    next
      case (Exited x)
      with Cons.prems False pb b show ?thesis by (auto simp: Let_def)
    next
      case (Faulted x)
      with Cons.prems False pb b show ?thesis by (auto simp: Let_def)
    qed
  qed
qed

lemma poll_timeout_third:
  fixes timeout :: u64
  assumes "unat timeout \<le> MAX_TIMEOUT"
  shows "sint (ucast (timeout div 3) :: c_int) = int (unat timeout div 3)"
proof -
  have d: "uint (timeout div 3) = int (unat timeout div 3)"
    by (simp add: uint_nat unat_div)
  with assms have lt: "uint (timeout div 3) < 2 ^ 31"
    by (simp add: MAX_TIMEOUT_def)
  have "(ucast (timeout div 3) :: c_int) = word_of_int (uint (timeout div 3))"
    by simp
  then have "sint (ucast (timeout div 3) :: c_int) = signed_take_bit 31 (uint (timeout div 3))"
    by (simp only: sint_sbintrunc') simp
  also have "\<dots> = uint (timeout div 3)"
  proof -
    have "- (2 ^ 31) \<le> (0::int)" by simp
    also have "0 \<le> uint (timeout div 3)" by simp
    finally have "- (2 ^ 31) \<le> uint (timeout div 3)" .
    with lt show ?thesis by (simp only: signed_take_bit_int_eq_self_iff)
  qed
  finally show ?thesis by (simp add: d)
qed

lemma signal_handler_stop:
  "stop_main_loop s \<noteq> 0 \<Longrightarrow> stop_main_loop (signal_handler x s) \<noteq> 0"
  by (cases x) simp_all

lemma deliver_keeps_stop:
  "stop_main_loop s \<noteq> 0 \<Longrightarrow> stop_main_loop (deliver sigs s) \<noteq> 0"
  by (induction sigs arbitrary: s) (simp_all add: signal_handler_stop)

lemma show_statistics_stop:
  "show_statistics cfg s it = (ev, s') \<Longrightarrow> stop_main_loop s \<noteq> 0 \<Longrightarrow> stop_main_loop s' \<noteq> 0"
  by (auto simp: show_statistics_def deliver_keeps_stop split: if_splits)

lemma poll_body_keeps_stop:
  assumes "poll_body cfg s it = (ev, Continue s')"
    and "stop_main_loop (deliver (sig_body it) s) \<noteq> 0"
  shows "stop_main_loop s' \<noteq> 0"
proof -
  from assms(1) obtain steal_prev steal_now ev1 s1 ev4 where
    st: "show_statistics cfg (deliver (sig_body it) s) it = (ev1, s1)" and
    cl: "classify cfg (clamp_poll_timeout s1)
       (measure_gap (nano_current_get (clock_prev it)) (nano_current_get (clock_now it))
          steal_prev steal_now) = (ev4, s')"
    by (rule poll_body_Continue)
  from show_statistics_stop [OF st assms(2)] have "stop_main_loop (clamp_poll_timeout s1) \<noteq> 0"
    by simp
  with classify_poll_timeout [OF cl] show ?thesis by simp
qed

lemma poll_body_one_poll_call:
  assumes "poll_body cfg s it = (ev, Continue s')"
  shows "length (filter is_poll_call ev) = 1"
proof -
  from assms obtain steal_prev steal_now ev1 s1 ev4 where
    st: "show_statistics cfg (deliver (sig_body it) s) it = (ev1, s1)" and
    cl: "classify cfg (clamp_poll_timeout s1)
       (measure_gap (nano_current_get (clock_prev it)) (nano_current_get (clock_now it))
          steal_prev steal_now) = (ev4, s')" and
    ev: "ev = ev1 @ [LogDebugNow (nano_current_get (clock_prev it)) (tv_max_allowed_diff cfg)
                   (poll_timeout s1) steal_prev,
                 SysPoll (poll_timeout (clamp_poll_timeout s1))] @ ev4"
    by (rule poll_body_Continue)
  from st have "filter is_poll_call ev1 = []"
    by (auto simp: show_statistics_def print_statistics_def Let_def split: if_splits)
  moreover from classify_poll_timeout [OF cl] have "filter is_poll_call ev4 = []"
    by (simp add: filter_empty_conv)
  ultimately show ?thesis by (simp add: ev)
qed

lemma poll_loop_stop_seen:
  assumes "stop_main_loop (deliver (sig_top it) s) \<noteq> 0"
  shows "poll_loop cfg s (it # its) =
     ([LogStopped,
       LogStatistics (nano_current_get (clock_stats it) - tv_start cfg) (times_not_scheduled s)],
      Returned (deliver (sig_top it) s))"
  using assms by (simp add: Let_def print_statistics_def)

lemma round_half_even_nonneg: "0 \<le> m \<Longrightarrow> 0 \<le> round_half_even m"
  by (auto simp: round_half_even_def Let_def)

lemma fl_nonneg_cases:
  assumes "0 \<le> q"
  obtains r where "fl q = Finite r" and "0 \<le> r" | "fl q = PlusInf"
proof (cases "q = 0")
  case True
  then have "fl q = Finite 0" by (simp add: fl_def)
  then show ?thesis using that(1) by simp
next
  case False
  with assms have pos: "0 < q" by simp
  define e where "e = max (flog2 \<bar>q\<bar>) (- 1022)"
  define u :: rat where "u = 2 powi (e - 52)"
  define n where "n = round_half_even (\<bar>q\<bar> / u)"
  have u: "0 < u" by (simp add: u_def)
  with pos have "0 \<le> \<bar>q\<bar> / u" by simp
  then have n: "0 \<le> n" unfolding n_def by (rule round_half_even_nonneg)
  have flq: "fl q = (if 1024 \<le> e \<or> (e = 1023 \<and> 2 ^ 53 \<le> n) then PlusInf
                     else Finite (of_int n * u))"
  proof -
    from pos have q: "(q = 0) = False" "\<bar>q\<bar> = q" "sgn q = 1" "(0 < q) = True"
      by simp_all
    show ?thesis
      unfolding fl_def Let_def e_def u_def n_def
      by (simp only: q if_False if_True mult_1)
  qed
  show ?thesis
  proof (cases "1024 \<le> e \<or> (e = 1023 \<and> 2 ^ 53 \<le> n)")
    case True
    with flq have "fl q = PlusInf" by simp
    then show ?thesis by (rule that(2))
  next
    case False
    with flq have "fl q = Finite (of_int n * u)" by simp
    moreover have "0 \<le> of_int n * u" using n u by simp
    ultimately show ?thesis by (rule that(1))
  qed
qed

lemma fl_zero [simp]: "fl 0 = Finite 0"
  by (simp add: fl_def)

lemma double_of_u64_zero [simp]: "double_of_u64 0 = Finite 0"
  by (simp add: double_of_u64_def)

lemma steal_perc_zero_elapsed:
  "steal_perc (measure_gap t t sp sn) = NaN \<or> steal_perc (measure_gap t t sp sn) = PlusInf"
proof -
  have "0 \<le> (of_nat (unat (sn - sp)) :: rat)" by (rule of_nat_0_le_iff)
  then show ?thesis
  proof (cases rule: fl_nonneg_cases)
    case (1 r)
    then show ?thesis
      by (simp add: measure_gap_def double_of_u64_def)
  next
    case 2
    then show ?thesis
      by (simp add: measure_gap_def double_of_u64_def)
  qed
qed

lemmas example_defs =
  example_source_def late_iteration_def example_config_def example_state_def

lemmas body_defs =
  poll_body_def nano_stealtime_get_def nano_stealtime_vmguestlib_get_def
  nano_stealtime_kernel_get_def nano_current_get_def NO_NS_IN_SEC_def NO_NS_IN_MSEC_def
  show_statistics_def clamp_poll_timeout_def classify_def EINTR_def Let_def

lemma example_state_fields:
  "times_not_scheduled example_state = 0" "stop_main_loop example_state = 0"
  "display_statistics example_state = 0" "poll_timeout example_state = 66"
  by (simp_all add: example_state_def)

lemma late_steal_alarm:
  "dgt (steal_perc (measure_gap 10000000000 10300000000 100000000 300000000)) (Finite 10)"
  by (simp add: measure_gap_def double_of_u64_def) code_simp

lemma late_iteration_body:
  "poll_body example_config example_state late_iteration =
     ([LogDebugNow 10000000000 200000000 66 100000000, SysPoll 66,
       LogNotScheduled 300000000 200000000 200000000
         (steal_perc (measure_gap 10000000000 10300000000 100000000 300000000)),
       LogStealWarning (Finite 10)],
      Continue (example_state\<lparr>times_not_scheduled := 1\<rparr>))"
  by (simp add: body_defs example_defs late_steal_alarm)

lemma late_iteration_loop:
  "poll_loop example_config example_state [late_iteration] =
     ([LogDebugNow 10000000000 200000000 66 100000000, SysPoll 66,
       LogNotScheduled 300000000 200000000 200000000
         (steal_perc (measure_gap 10000000000 10300000000 100000000 300000000)),
       LogStealWarning (Finite 10)],
      Running (example_state\<lparr>times_not_scheduled := 1\<rparr>))"
proof -
  have "deliver (sig_top late_iteration) example_state = example_state"
    by (simp add: late_iteration_def)
  moreover have "stop_main_loop example_state = 0"
    by (simp add: example_state_def)
  ultimately show ?thesis
    by (simp add: late_iteration_body)
qed

lemma late_iteration_sources:
  "nano_stealtime_get (use_vmguestlib_stealtime example_config) (src_prev late_iteration)
     = Inr 100000000"
  "nano_stealtime_get (use_vmguestlib_stealtime example_config) (src_now late_iteration)
     = Inr 300000000"
  by (simp_all add: body_defs example_defs)

declare fgets_lines.simps [simp del]

declare decimal.simps [simp del]

lemma digit_char_props:
  assumes "d < 10"
  shows "isdigit (digit_char d)" "digit_value (digit_char d) = d" "\<not> isspace (digit_char d)"
    "digit_char d \<noteq> CHR ''-''" "digit_char d \<noteq> CHR ''+''"
    "digit_char d \<noteq> CHR 0x0A" "digit_char d \<noteq> CHR 0x00"
proof -
  have v: "of_char (digit_char d) = 48 + d"
    using assms by (simp add: digit_char_def)
  show "isdigit (digit_char d)" using assms by (simp add: isdigit_def v)
  show "digit_value (digit_char d) = d" by (simp add: digit_value_def v)
  have "(of_char c :: nat) \<notin> {32, 9, 10, 11, 12, 13} \<Longrightarrow> \<not> isspace c" for c
    by (auto simp: isspace_def)
  then show "\<not> isspace (digit_char d)" using assms by (simp add: v)
  have ne: "(of_char c :: nat) \<noteq> of_char c' \<Longrightarrow> c \<noteq> c'" for c c' by auto
  show "digit_char d \<noteq> CHR ''-''" using assms by (intro ne) (simp add: v)
  show "digit_char d \<noteq> CHR ''+''" using assms by (intro ne) (simp add: v)
  show "digit_char d \<noteq> CHR 0x0A" using assms by (intro ne) (simp add: v)
  show "digit_char d \<noteq> CHR 0x00" using assms by (intro ne) (simp add: v)
qed

lemma decimal_nonempty: "decimal n \<noteq> []"
  by (subst decimal.simps) simp

lemma decimal_digits: "c \<in> set (decimal n) \<Longrightarrow> \<exists>d < 10. c = digit_char d"
proof (induction n rule: decimal.induct)
  case (1 n)
  show ?case
  proof (cases "n < 10")
    case True
    with "1.prems" show ?thesis by (subst (asm) decimal.simps) auto
  next
    case False
    with "1.prems" have "c \<in> set (decimal (n div 10)) \<or> c = digit_char (n mod 10)"
      by (subst (asm) decimal.simps) auto
    then show ?thesis
    proof
      assume "c \<in> set (decimal (n div 10))"
      with "1.IH" False show ?thesis by simp
    next
      assume "c = digit_char (n mod 10)"
      moreover have "n mod 10 < 10" by simp
      ultimately show ?thesis by blast
    qed
  qed
qed

lemma digits_value_snoc: "digits_value (ds @ [c]) = 10 * digits_value ds + digit_value c"
  by (simp add: digits_value_def)

lemma digits_value_decimal: "digits_value (decimal n) = n"
proof (induction n rule: decimal.induct)
  case (1 n)
  show ?case
  proof (cases "n < 10")
    case True
    then show ?thesis
      by (subst decimal.simps) (simp add: digits_value_def digit_char_props)
  next
    case False
    with "1.IH" have "digits_value (decimal (n div 10)) = n div 10" by simp
    with False show ?thesis
      by (subst decimal.simps) (simp add: digits_value_snoc digit_char_props)
  qed
qed

lemma decimal_all_digits: "\<forall>c \<in> set (decimal n). isdigit c"
  using decimal_digits digit_char_props(1) by blast

lemma decimal_hd:
  obtains c cs where "decimal n = c # cs" and "isdigit c" and "\<not> isspace c"
    and "c \<noteq> CHR ''-''" and "c \<noteq> CHR ''+''"
proof -
  obtain c cs where d: "decimal n = c # cs"
    using decimal_nonempty [of n] by (cases "decimal n") auto
  then have "c \<in> set (decimal n)" by simp
  then obtain k where "k < 10" "c = digit_char k" using decimal_digits by blast
  with d that digit_char_props [of k] show ?thesis by blast
qed

lemma takeWhile_digits:
  "ends_number t \<Longrightarrow> takeWhile isdigit (decimal n @ t) = decimal n"
  "ends_number t \<Longrightarrow> dropWhile isdigit (decimal n @ t) = t"
  using decimal_all_digits [of n]
  by (auto simp: ends_number_def takeWhile_append dropWhile_append split: list.splits)

lemma blank_isspace: "blank ws \<Longrightarrow> \<forall>c \<in> set ws. isspace c"
  by (auto simp: blank_def isspace_def)

lemma scan_u64_decimal:
  assumes "\<forall>c \<in> set ws. isspace c" and "n < 2 ^ 64" and "ends_number t"
  shows "scan_u64 (ws @ decimal n @ t) = Conv (of_nat n) t"
proof -
  obtain c cs where d: "decimal n = c # cs" and c: "\<not> isspace c" "c \<noteq> CHR ''-''" "c \<noteq> CHR ''+''"
    by (rule decimal_hd) blast
  have "dropWhile isspace (ws @ decimal n @ t) = c # cs @ t"
    using assms(1) c(1) by (simp add: dropWhile_append d)
  moreover have "takeWhile isdigit (c # cs @ t) = decimal n"
    "dropWhile isdigit (c # cs @ t) = t"
    using takeWhile_digits [OF assms(3), of n] by (simp_all add: d)
  moreover have "strtoull False (decimal n) = of_nat n"
    using assms(2) by (simp add: strtoull_def digits_value_decimal Let_def)
  ultimately show ?thesis
    using c decimal_nonempty [of n] by (simp add: scan_u64_def Let_def)
qed

lemma fields_text_Nil [simp]: "fields_text [] = []"
  by (simp add: fields_text_def)

lemma fields_text_Cons [simp]:
  "fields_text ((ws, n) # fs) = ws @ decimal n @ fields_text fs"
  by (simp add: fields_text_def)

lemma well_formed_fields_Cons [simp]:
  "well_formed_fields ((ws, n) # fs) \<longleftrightarrow> blank ws \<and> n < 2 ^ 64 \<and> well_formed_fields fs"
  by (simp add: well_formed_fields_def)

lemma ends_number_fields:
  assumes "well_formed_fields fs" and "ends_number t"
  shows "ends_number (fields_text fs @ t)"
proof (cases fs)
  case Nil
  with assms show ?thesis by simp
next
  case (Cons a fs')
  obtain ws n where a: "a = (ws, n)" by (cases a)
  with assms Cons have b: "blank ws" by simp
  then obtain c cs where ws: "ws = c # cs" and "c = CHR 0x20 \<or> c = CHR 0x09"
    by (cases ws) (auto simp: blank_def)
  then have "\<not> isdigit c" by (auto simp: isdigit_def)
  then show ?thesis by (simp add: Cons a ws ends_number_def)
qed

lemma scan_numbers_fields:
  assumes "well_formed_fields fs" and "ends_number t" and "length fs \<le> k"
  shows "scan_numbers k (fields_text fs @ t)
           = map (\<lambda>(ws, n). of_nat n) fs @ scan_numbers (k - length fs) t"
  using assms
proof (induction fs arbitrary: k)
  case Nil
  then show ?case by simp
next
  case (Cons a fs)
  obtain ws n where a: "a = (ws, n)" by (cases a)
  from Cons.prems obtain k' where k: "k = Suc k'" by (cases k) auto
  from Cons.prems a have wf: "blank ws" "n < 2 ^ 64" "well_formed_fields fs" by simp_all
  have e: "ends_number (fields_text fs @ t)"
    using wf(3) Cons.prems(2) by (rule ends_number_fields)
  have "scan_u64 (ws @ decimal n @ fields_text fs @ t) = Conv (of_nat n) (fields_text fs @ t)"
    using blank_isspace [OF wf(1)] wf(2) e by (rule scan_u64_decimal)
  moreover have "scan_numbers k' (fields_text fs @ t)
           = map (\<lambda>(ws, n). of_nat n) fs @ scan_numbers (k' - length fs) t"
    using Cons.IH [OF wf(3) Cons.prems(2)] Cons.prems(3) k by simp
  ultimately show ?case by (simp add: a k)
qed

lemma match_literal_cpu: "match_literal ''cpu'' (''cpu'' @ r) = LitOk r"
  by simp

lemma sscanf_cpu_fields:
  assumes "well_formed_fields fs" and "ends_number t" and "fs \<noteq> []" and "length fs \<le> 8"
  shows "sscanf_cpu (''cpu'' @ fields_text fs @ t)
           = (int (length (map (\<lambda>(ws, n). of_nat n :: u64) fs @ scan_numbers (8 - length fs) t)),
              map (\<lambda>(ws, n). of_nat n) fs @ scan_numbers (8 - length fs) t)"
proof -
  obtain ws n fs' where fs: "fs = (ws, n) # fs'"
    using assms(3) by (cases fs) auto
  with assms(1) have wf: "blank ws" "n < 2 ^ 64" "well_formed_fields fs'" by simp_all
  have e: "ends_number (fields_text fs' @ t)"
    using wf(3) assms(2) by (rule ends_number_fields)
  have first: "scan_u64 (fields_text fs @ t) = Conv (of_nat n) (fields_text fs' @ t)"
    using scan_u64_decimal [OF blank_isspace [OF wf(1)] wf(2) e] by (simp add: fs)
  have "sscanf_cpu (''cpu'' @ fields_text fs @ t)
      = (let vs = scan_numbers 8 (fields_text fs @ t) in (int (length vs), vs))"
    unfolding sscanf_cpu_def match_literal_cpu by (simp add: first)
  then show ?thesis
    using scan_numbers_fields [OF assms(1,2,4)] by (simp add: Let_def)
qed

lemma take_line_append:
  assumes "CHR 0x0A \<notin> set p" and "length p \<le> n"
  shows "take_line n (p @ r) =
           (p @ fst (take_line (n - length p) r), snd (take_line (n - length p) r))"
  using assms
proof (induction p arbitrary: n)
  case Nil
  then show ?case by simp
next
  case (Cons c p)
  then obtain n' where n: "n = Suc n'" by (cases n) auto
  with Cons.prems have "take_line n' (p @ r) =
           (p @ fst (take_line (n' - length p) r), snd (take_line (n' - length p) r))"
    by (intro Cons.IH) auto
  with Cons.prems show ?case by (auto simp: n)
qed

lemma c_string_append:
  "CHR 0x00 \<notin> set p \<Longrightarrow> c_string (p @ l) = p @ c_string l"
  by (simp add: c_string_def takeWhile_append)

lemma ends_number_take_line:
  "ends_number t \<Longrightarrow> ends_number (fst (take_line m t))"
  by (cases m; cases t) (auto simp: ends_number_def split: prod.splits)

lemma ends_number_c_string:
  "ends_number l \<Longrightarrow> ends_number (c_string l)"
  by (cases l) (auto simp: ends_number_def c_string_def)

lemma blank_chars: "blank ws \<Longrightarrow> c \<in> set ws \<Longrightarrow> c = CHR 0x20 \<or> c = CHR 0x09"
  by (auto simp: blank_def)

lemma fields_text_chars:
  "well_formed_fields fs \<Longrightarrow> c \<in> set (fields_text fs) \<Longrightarrow> c \<noteq> CHR 0x0A \<and> c \<noteq> CHR 0x00"
proof (induction fs)
  case Nil
  then show ?case by simp
next
  case (Cons a fs)
  obtain ws n where a: "a = (ws, n)" by (cases a)
  from Cons.prems(1) have wf: "blank ws" "well_formed_fields fs" by (simp_all add: a)
  from Cons.prems(2)
  have "c \<in> set ws \<or> c \<in> set (decimal n) \<or> c \<in> set (fields_text fs)"
    by (simp add: a)
  then show ?case
  proof (elim disjE)
    assume "c \<in> set ws"
    with wf(1) have "c = CHR 0x20 \<or> c = CHR 0x09" by (rule blank_chars)
    then show ?thesis by (elim disjE) simp_all
  next
    assume "c \<in> set (decimal n)"
    then obtain d where "d < 10" "c = digit_char d" using decimal_digits by blast
    then show ?thesis by (simp add: digit_char_props(6,7))
  next
    assume "c \<in> set (fields_text fs)"
    with wf(2) show ?thesis by (rule Cons.IH)
  qed
qed

lemma cpu_line_chars:
  assumes "well_formed_fields fs"
  shows "CHR 0x0A \<notin> set (''cpu'' @ fields_text fs)" "CHR 0x00 \<notin> set (''cpu'' @ fields_text fs)"
  using fields_text_chars [OF assms] by auto

text \<open>The first buffer read from a file that starts with a \<open>cpu\<close> line.\<close>

lemma first_buffer_of_cpu_line:
  assumes "well_formed_fields fs" and "ends_number t"
    and "length (''cpu'' @ fields_text fs) \<le> 4095"
  obtains l f' where
    "fgets 4096 (''cpu'' @ fields_text fs @ t) = Some ((''cpu'' @ fields_text fs) @ l, f')"
    and "c_string ((''cpu'' @ fields_text fs) @ l) = ''cpu'' @ fields_text fs @ c_string l"
    and "ends_number (c_string l)"
    and "l = fst (take_line (4095 - length (''cpu'' @ fields_text fs)) t)"
proof -
  let ?p = "''cpu'' @ fields_text fs"
  let ?m = "4095 - length ?p"
  have "take_line 4095 (?p @ t) = (?p @ fst (take_line ?m t), snd (take_line ?m t))"
    using cpu_line_chars(1) [OF assms(1)] assms(3) by (rule take_line_append)
  then have "fgets 4096 (''cpu'' @ fields_text fs @ t)
      = Some (?p @ fst (take_line ?m t), snd (take_line ?m t))"
    by (simp add: fgets_def)
  moreover have "c_string (?p @ fst (take_line ?m t)) = ''cpu'' @ fields_text fs @ c_string (fst (take_line ?m t))"
    using c_string_append [OF cpu_line_chars(2) [OF assms(1)]] by simp
  moreover have "ends_number (c_string (fst (take_line ?m t)))"
    using assms(2) by (intro ends_number_c_string ends_number_take_line)
  ultimately show ?thesis using that by blast
qed

lemma stat_loop_valid_first_line:
  assumes "fgets 4096 f = Some (buf, f')" and "sscanf_cpu (c_string buf) = (n, vs)" and "4 < n"
  shows "stat_loop f clk = steal_of_valid_line vs clk"
  using assms by (subst stat_loop.simps) simp

lemma scan_u64_no_input:
  "\<forall>c \<in> set l. isspace c \<Longrightarrow> scan_u64 l = InputFail"
proof -
  assume "\<forall>c \<in> set l. isspace c"
  then have d: "dropWhile isspace l = []" by simp
  show ?thesis unfolding scan_u64_def d by simp
qed

lemma scan_numbers_no_input:
  "\<forall>c \<in> set l. isspace c \<Longrightarrow> scan_numbers k l = []"
  by (cases k) (simp_all add: scan_u64_no_input)

lemma take_line_newline:
  "fst (take_line m (CHR 0x0A # r)) = [] \<or> fst (take_line m (CHR 0x0A # r)) = [CHR 0x0A]"
  by (cases m) simp_all

lemma stat_loop_all_rejected:
  "\<forall>buf \<in> set (fgets_lines f). fst (sscanf_cpu (c_string buf)) \<le> 4 \<Longrightarrow> stat_loop f clk = Inr 0"
proof (induction f rule: fgets_lines.induct)
  case (1 f)
  show ?case
  proof (cases "fgets 4096 f")
    case None
    then show ?thesis by (subst stat_loop.simps) simp
  next
    case (Some a)
    obtain buf f' where a: "a = (buf, f')" by (cases a)
    have lines: "fgets_lines f = buf # fgets_lines f'"
      by (subst fgets_lines.simps) (simp add: Some a)
    with "1.prems" have rej: "fst (sscanf_cpu (c_string buf)) \<le> 4"
      and rest: "\<forall>b \<in> set (fgets_lines f'). fst (sscanf_cpu (c_string b)) \<le> 4"
      by simp_all
    have "stat_loop f' clk = Inr 0"
      using "1.IH" [OF Some a [symmetric] rest] .
    with rej show ?thesis
      by (subst stat_loop.simps) (auto simp: Some a split: prod.splits)
  qed
qed

lemma match_literal_cpu_take:
  "match_literal ''cpu'' b = LitOk r \<Longrightarrow> take 3 b = ''cpu''"
  by (cases b; cases "tl b"; cases "tl (tl b)") (auto split: if_splits)

lemma c_string_prefix: "take k (c_string b) = ''cpu'' \<Longrightarrow> k = 3 \<Longrightarrow> take 3 b = ''cpu''"
  by (cases b; cases "tl b"; cases "tl (tl b)") (auto simp: c_string_def split: if_splits)

lemma sscanf_cpu_other_line:
  assumes "take 3 buf \<noteq> ''cpu''"
  shows "fst (sscanf_cpu (c_string buf)) \<le> 0"
proof (cases "match_literal ''cpu'' (c_string buf)")
  case (LitOk r)
  then have "take 3 (c_string buf) = ''cpu''" by (rule match_literal_cpu_take)
  then have "take 3 buf = ''cpu''" by (rule c_string_prefix) simp
  with assms show ?thesis by simp
next
  case LitMismatch
  then show ?thesis by (simp add: sscanf_cpu_def)
next
  case LitInputFail
  then show ?thesis by (simp add: sscanf_cpu_def)
qed

lemma take_line_Nil: "take_line n [] = ([], [])"
  by (cases n) simp_all

lemma take_line_Cons:
  "take_line n (c # cs) =
     (if n = 0 then ([], c # cs)
      else if c = CHR 0x0A then ([c], cs)
      else (case take_line (n - 1) cs of (l, r) \<Rightarrow> (c # l, r)))"
  by (cases n) simp_all

lemma stat_loop_Nil: "stat_loop [] clk = Inr 0"
  by (subst stat_loop.simps) (simp add: fgets_def)

lemma stat_loop_Cons:
  "stat_loop (c # cs) clk =
     (case take_line 4095 (c # cs) of
        (buf, f') \<Rightarrow>
          (case sscanf_cpu (c_string buf) of
             (n, vs) \<Rightarrow> if 4 < n then steal_of_valid_line vs clk else stat_loop f' clk))"
  by (subst stat_loop.simps) (simp add: fgets_def)

lemma fgets_lines_Nil: "fgets_lines [] = []"
  by (subst fgets_lines.simps) (simp add: fgets_def)

lemma fgets_lines_Cons:
  "fgets_lines (c # cs) = (case take_line 4095 (c # cs) of (buf, f') \<Rightarrow> buf # fgets_lines f')"
  by (subst fgets_lines.simps) (simp add: fgets_def)

lemma scan_numbers_numeral:
  "scan_numbers (numeral k) s =
     (case scan_u64 s of
        Conv v rest \<Rightarrow> v # scan_numbers (pred_numeral k) rest
      | MatchFail \<Rightarrow> []
      | InputFail \<Rightarrow> [])"
  by (simp add: numeral_eq_Suc)

lemmas scan_defs =
  nano_stealtime_kernel_get_def scan_numbers_numeral stat_loop_Nil stat_loop_Cons take_line_Nil take_line_Cons
  c_string_def sscanf_cpu_def scan_u64_def isspace_def isdigit_def strtoull_def digits_value_def
  digit_value_def steal_of_valid_line_def scanned_field_def NO_NS_IN_SEC_def Let_def

lemma digit_char_numerals:
  "digit_char 0 = CHR ''0''" "digit_char 1 = CHR ''1''" "digit_char 2 = CHR ''2''"
  "digit_char 3 = CHR ''3''" "digit_char 4 = CHR ''4''" "digit_char 5 = CHR ''5''"
  "digit_char 6 = CHR ''6''" "digit_char 7 = CHR ''7''" "digit_char 8 = CHR ''8''"
  "digit_char 9 = CHR ''9''" "digit_char (Suc 0) = CHR ''1''"
proof -
  have eq: "(of_char c :: nat) = of_char c' \<Longrightarrow> c = c'" for c c' by simp
  show "digit_char 0 = CHR ''0''" by (rule eq) (simp add: digit_char_def)
  show "digit_char 1 = CHR ''1''" by (rule eq) (simp add: digit_char_def del: One_nat_def)
  show "digit_char 2 = CHR ''2''" by (rule eq) (simp add: digit_char_def)
  show "digit_char 3 = CHR ''3''" by (rule eq) (simp add: digit_char_def)
  show "digit_char 4 = CHR ''4''" by (rule eq) (simp add: digit_char_def)
  show "digit_char 5 = CHR ''5''" by (rule eq) (simp add: digit_char_def)
  show "digit_char 6 = CHR ''6''" by (rule eq) (simp add: digit_char_def)
  show "digit_char 7 = CHR ''7''" by (rule eq) (simp add: digit_char_def)
  show "digit_char 8 = CHR ''8''" by (rule eq) (simp add: digit_char_def)
  show "digit_char 9 = CHR ''9''" by (rule eq) (simp add: digit_char_def)
  show "digit_char (Suc 0) = CHR ''1''" by (rule eq) (simp add: digit_char_def)
qed

lemma well_formed_fields_Nil [simp]: "well_formed_fields []"
  by (simp add: well_formed_fields_def)

lemma spec_example_text:
  "''cpu'' @ fields_text spec_example_fields @ [CHR 0x0A]
     = ''cpu 100 5 50 800 2 1 3 40'' @ [CHR 0x0A]"
  by (simp add: spec_example_fields_def decimal.simps digit_char_numerals)

lemma spec_example_well_formed: "well_formed_fields spec_example_fields"
  by (simp add: spec_example_fields_def blank_def)

lemma no_cpu_line_buffers:
  "fgets_lines (''intr 5'' @ [CHR 0x0A] @ ''ctxt 7'' @ [CHR 0x0A])
     = [''intr 5'' @ [CHR 0x0A], ''ctxt 7'' @ [CHR 0x0A]]"
  by (simp add: fgets_lines_Nil fgets_lines_Cons take_line_Nil take_line_Cons)

lemma two_powi_nat: "0 \<le> k \<Longrightarrow> (2::rat) powi k = of_int (2 ^ nat k)"
  by (simp add: power_int_def)

lemma two_powi_neg: "0 \<le> k \<Longrightarrow> (2::rat) powi (- k) = 1 / of_int (2 ^ nat k)"
  by (simp add: power_int_minus_divide two_powi_nat)

lemma flog2_bounds:
  assumes "0 < q"
  shows "2 powi (flog2 q) \<le> q" and "q < 2 powi (flog2 q + 1)"
proof -
  have "2 powi (flog2 q) \<le> q \<and> q < 2 powi (flog2 q + 1)"
  proof (cases "1 \<le> q")
    case True
    define x where "x = \<lfloor>q\<rfloor>"
    define b where "b = bitlen x"
    have x: "0 < x" using True by (simp add: x_def)
    from bitlen_bounds [OF x] have lo: "2 ^ nat (b - 1) \<le> x" and hi: "x < 2 ^ nat b"
      by (simp_all add: b_def)
    have b: "1 \<le> b" using x bitlen_eq_zero_iff [of x] bitlen_nonneg [of x]
      by (simp add: b_def; linarith?)
    have e: "flog2 q = b - 1" using True by (simp add: flog2_def x_def b_def)
    have "(2::rat) powi (b - 1) = of_int (2 ^ nat (b - 1))"
      using b by (intro two_powi_nat) simp
    also have "\<dots> \<le> of_int x" using lo by (simp only: of_int_le_iff)
    also have "\<dots> \<le> q" by (simp add: x_def)
    finally have l: "2 powi (flog2 q) \<le> q" by (simp add: e)
    have "q < of_int (x + 1)" using floor_correct [of q] by (simp add: x_def)
    also have "\<dots> \<le> of_int (2 ^ nat b)" using hi by (simp only: of_int_le_iff; simp?)
    also have "\<dots> = 2 powi b" using b by (subst two_powi_nat) simp_all
    finally have "q < 2 powi (flog2 q + 1)" by (simp add: e)
    with l show ?thesis ..
  next
    case False
    define r where "r = 1 / q"
    define x where "x = \<lceil>r\<rceil> - 1"
    define b where "b = bitlen x"
    from False assms have r1: "1 < r" by (simp add: r_def)
    have q: "q = 1 / r" by (simp add: r_def)
    have x: "0 < x" using r1 by (simp add: x_def; linarith?)
    from bitlen_bounds [OF x] have lo: "2 ^ nat (b - 1) \<le> x" and hi: "x < 2 ^ nat b"
      by (simp_all add: b_def)
    have b: "1 \<le> b" using x bitlen_eq_zero_iff [of x] bitlen_nonneg [of x]
      by (simp add: b_def; linarith?)
    have e: "flog2 q = - b" using False by (simp add: flog2_def x_def b_def r_def)
    have "r \<le> of_int \<lceil>r\<rceil>" by simp
    also have "\<dots> = of_int (x + 1)" by (simp add: x_def)
    also have "\<dots> \<le> of_int (2 ^ nat b)" using hi by (simp only: of_int_le_iff; simp?)
    finally have rle: "r \<le> of_int (2 ^ nat b)" .
    have p: "(0::rat) < of_int (2 ^ nat b)" by simp
    have "(2::rat) powi (- b) = 1 / of_int (2 ^ nat b)"
      using b by (intro two_powi_neg) simp
    also have "\<dots> \<le> 1 / r" using rle r1 by (intro divide_left_mono) simp_all
    finally have "2 powi (- b) \<le> 1 / r" .
    then have l: "2 powi (flog2 q) \<le> q" unfolding e by (simp only: q [symmetric])
    have "(of_int (2 ^ nat (b - 1)) :: rat) \<le> of_int x" using lo by (simp only: of_int_le_iff)
    also have "\<dots> < r" by (simp add: x_def; linarith?)
    finally have rgt: "of_int (2 ^ nat (b - 1)) < r" .
    have r0: "0 < r" using r1 by simp
    have "1 / r < 1 / of_int (2 ^ nat (b - 1))"
      using rgt r0 by (intro divide_strict_left_mono) simp_all
    also have "\<dots> = 2 powi (- (b - 1))"
      using b by (subst two_powi_neg) simp_all
    finally have "1 / r < 2 powi (- (b - 1))" .
    moreover have "flog2 q + 1 = - (b - 1)" by (simp add: e)
    ultimately have "q < 2 powi (flog2 q + 1)" by (simp only: q [symmetric])
    with l show ?thesis ..
  qed
  then show "2 powi (flog2 q) \<le> q" and "q < 2 powi (flog2 q + 1)" by simp_all
qed

lemma round_half_even_bounds:
  "\<lfloor>m\<rfloor> \<le> round_half_even m" "round_half_even m \<le> \<lfloor>m\<rfloor> + 1"
  by (simp_all add: round_half_even_def Let_def)

lemma round_half_even_of_int [simp]: "round_half_even (of_int k) = k"
  by (simp add: round_half_even_def)

lemma fl_pos:
  assumes "0 < q" and "e = max (flog2 q) (- 1022)" and "u = 2 powi (e - 52)"
    and "n = round_half_even (q / u)"
  shows "fl q = (if 1024 \<le> e \<or> (e = 1023 \<and> 2 ^ 53 \<le> n) then PlusInf
                 else Finite (of_int n * u))"
proof -
  from assms(1) have q: "(q = 0) = False" "\<bar>q\<bar> = q" "sgn q = 1" "(0 < q) = True"
    by simp_all
  show ?thesis
    unfolding fl_def Let_def assms(2-4)
    by (simp only: q if_False if_True mult_1)
qed

lemma fl_bounds:
  assumes "2 powi j1 \<le> q" and "q \<le> 2 powi j2" and "- 1022 \<le> j1" and "j2 \<le> 1023"
  shows "\<exists>r. fl q = Finite r \<and> 2 powi j1 \<le> r \<and> r \<le> 2 powi j2"
proof -
  have "(0::rat) < 2 powi j1" by (simp add: zero_less_power_int)
  from this assms(1) have q: "0 < q" by (rule less_le_trans)
  define e where "e = flog2 q"
  have lo: "2 powi e \<le> q" and hi: "q < 2 powi (e + 1)"
    using flog2_bounds [OF q] by (simp_all add: e_def)
  have j1e: "j1 \<le> e"
  proof (rule ccontr)
    assume "\<not> j1 \<le> e"
    then have "e + 1 \<le> j1" by simp
    then have "(2::rat) powi (e + 1) \<le> 2 powi j1" by (intro power_int_increasing) simp_all
    with assms(1) hi show False by simp
  qed
  have ej2: "e \<le> j2"
  proof (rule ccontr)
    assume "\<not> e \<le> j2"
    then have "j2 < e" by simp
    then have "(2::rat) powi j2 < 2 powi e" by (intro power_int_strict_increasing) simp_all
    with assms(2) lo show False by simp
  qed
  have em: "e = max (flog2 q) (- 1022)"
    using j1e assms(3) by (simp add: e_def)
  define u :: rat where "u = 2 powi (e - 52)"
  have u: "0 < u" by (simp add: u_def zero_less_power_int)
  have pe: "2 powi e = 2 ^ 52 * u"
  proof -
    have "(2::rat) powi (52 + (e - 52)) = 2 powi 52 * 2 powi (e - 52)"
      by (rule power_int_add) simp
    then show ?thesis by (simp add: u_def)
  qed
  have pe1: "2 powi (e + 1) = 2 ^ 53 * u"
  proof -
    have "(2::rat) powi (53 + (e - 52)) = 2 powi 53 * 2 powi (e - 52)"
      by (rule power_int_add) simp
    moreover have "53 + (e - 52) = e + 1" by simp
    ultimately show ?thesis by (simp add: u_def)
  qed
  define m where "m = q / u"
  define n where "n = round_half_even m"
  have m_lo: "2 ^ 52 \<le> m"
    using lo u unfolding pe m_def by (simp add: pos_le_divide_eq)
  have m_hi: "m < 2 ^ 53"
    using hi u unfolding pe1 m_def by (simp add: pos_divide_less_eq)
  have "(2 ^ 52 :: int) \<le> \<lfloor>m\<rfloor>"
    using m_lo by (simp add: le_floor_iff)
  with round_half_even_bounds(1) [of m] have n_lo: "2 ^ 52 \<le> n"
    unfolding n_def by linarith
  have "\<lfloor>m\<rfloor> < (2 ^ 53 :: int)"
    using m_hi by (simp add: floor_less_iff)
  with round_half_even_bounds(2) [of m] have n_hi: "n \<le> 2 ^ 53"
    unfolding n_def by linarith
  have flq: "fl q = (if 1024 \<le> e \<or> (e = 1023 \<and> 2 ^ 53 \<le> n) then PlusInf
                 else Finite (of_int n * u))"
    using q em u_def by (rule fl_pos) (simp add: n_def m_def)
  show ?thesis
  proof (cases "e = j2")
    case True
    with assms(2) lo have qe: "q = 2 powi e" by simp
    then have "m = of_int (2 ^ 52)"
      using u by (simp add: m_def pe)
    then have n: "n = 2 ^ 52" by (simp only: n_def round_half_even_of_int)
    have "\<not> (1024 \<le> e \<or> (e = 1023 \<and> 2 ^ 53 \<le> n))"
      using True assms(4) by (simp add: n)
    with flq have "fl q = Finite (of_int n * u)" by simp
    moreover have "of_int n * u = q" by (simp add: n qe pe)
    ultimately show ?thesis using assms(1,2) by simp
  next
    case False
    with ej2 assms(4) have "e \<le> 1022" by simp
    then have "\<not> (1024 \<le> e \<or> (e = 1023 \<and> 2 ^ 53 \<le> n))" by simp
    with flq have r: "fl q = Finite (of_int n * u)" by simp
    have "(2::rat) powi j1 \<le> 2 powi e"
      using j1e by (intro power_int_increasing) simp_all
    also have "\<dots> = of_int (2 ^ 52) * u" by (simp add: pe)
    also have "\<dots> \<le> of_int n * u"
    proof -
      have "(of_int (2 ^ 52) :: rat) \<le> of_int n"
        using n_lo by (simp only: of_int_le_iff)
      then show ?thesis by (rule mult_right_mono) (use u in simp)
    qed
    finally have l: "2 powi j1 \<le> of_int n * u" .
    have "of_int n * u \<le> of_int (2 ^ 53) * u"
    proof -
      have "(of_int n :: rat) \<le> of_int (2 ^ 53)"
        using n_hi by (simp only: of_int_le_iff)
      then show ?thesis by (rule mult_right_mono) (use u in simp)
    qed
    also have "\<dots> = 2 powi (e + 1)" by (simp add: pe1)
    also have "\<dots> \<le> 2 powi j2"
      using False ej2 by (intro power_int_increasing) simp_all
    finally have "of_int n * u \<le> 2 powi j2" .
    with r l show ?thesis by simp
  qed
qed

lemma double_of_u64_bounds:
  assumes "2 ^ j \<le> unat x" and "unat x \<le> 2 ^ k" and "k \<le> 64"
  shows "\<exists>r. double_of_u64 x = Finite r \<and> 2 ^ j \<le> r \<and> r \<le> 2 ^ k"
proof -
  have "(2::rat) powi int j = 2 ^ j" "(2::rat) powi int k = 2 ^ k"
    by (simp_all only: power_int_of_nat)
  moreover have "(2 ^ j :: rat) \<le> of_nat (unat x)"
  proof -
    have "(of_nat (2 ^ j) :: rat) \<le> of_nat (unat x)"
      using assms(1) by (simp only: of_nat_le_iff)
    then show ?thesis by simp
  qed
  moreover have "(of_nat (unat x) :: rat) \<le> 2 ^ k"
  proof -
    have "(of_nat (unat x) :: rat) \<le> of_nat (2 ^ k)"
      using assms(2) by (simp only: of_nat_le_iff)
    then show ?thesis by simp
  qed
  ultimately have "\<exists>r. fl (of_nat (unat x)) = Finite r \<and> 2 powi int j \<le> r \<and> r \<le> 2 powi int k"
    using assms(3) by (intro fl_bounds) simp_all
  then show ?thesis
    by (simp only: double_of_u64_def power_int_of_nat)
qed

lemma steal_perc_bounds:
  assumes "2 ^ j \<le> unat sd" and "0 < unat td" and "unat td \<le> 2 ^ k" and "k \<le> 64"
  shows "\<exists>r. dmul (ddiv (double_of_u64 sd) (double_of_u64 td)) (Finite 100) = Finite r
            \<and> 2 powi (int j - int k + 6) \<le> r"
proof -
  have "unat sd \<le> 2 ^ 64"
    using unsigned_less [of sd, where 'a = nat] by simp
  with assms(1) obtain a where a: "double_of_u64 sd = Finite a" "2 ^ j \<le> a" "a \<le> 2 ^ 64"
    using double_of_u64_bounds [of j sd 64] by auto
  have "2 ^ 0 \<le> unat td" using assms(2) by simp
  with assms(3,4) obtain b where b: "double_of_u64 td = Finite b" "2 ^ 0 \<le> b" "b \<le> 2 ^ k"
    using double_of_u64_bounds [of 0 td k] by blast
  from b(2) have b1: "1 \<le> b" by simp
  then have b0: "0 < b" by simp
  from a(2) have a0: "0 < a"
    using zero_less_power [of "2::rat" j] by linarith
  have div: "ddiv (Finite a) (Finite b) = fl (a / b)"
    using b0 by simp
  have pk: "(2::rat) powi (int j - int k) = 2 ^ j / 2 ^ k"
    by (simp add: power_int_diff)
  have "2 ^ j / 2 ^ k \<le> a / b"
    using a(2) b(3) b0 a0 by (intro frac_le) simp_all
  then have lo: "2 powi (int j - int k) \<le> a / b" by (simp only: pk)
  have "a / b \<le> a / 1"
    using b1 a0 by (intro divide_left_mono) simp_all
  with a(3) have hi: "a / b \<le> 2 powi 64" by simp
  have jk: "- 1022 \<le> int j - int k" using assms(4) by simp
  obtain c where c: "fl (a / b) = Finite c" "2 powi (int j - int k) \<le> c" "c \<le> 2 powi 64"
    using fl_bounds [OF lo hi jk] by auto
  have c0: "0 < c"
    using c(2) zero_less_power_int [of "2::rat" "int j - int k"] by linarith
  have mul: "dmul (Finite c) (Finite 100) = fl (c * 100)" by simp
  have p6: "(2::rat) powi (int j - int k + 6) = 2 powi (int j - int k) * 2 ^ 6"
    by (simp add: power_int_add)
  have "2 powi (int j - int k) * 2 ^ 6 \<le> c * 100"
    using c(2) c0 by (intro mult_mono) simp_all
  then have lo2: "2 powi (int j - int k + 6) \<le> c * 100" by (simp only: p6)
  have "c * 100 \<le> 2 powi 64 * 2 ^ 7"
    using c(3) c0 by (intro mult_mono) simp_all
  also have "\<dots> = 2 powi 71" by simp
  finally have hi2: "c * 100 \<le> 2 powi 71" .
  have jk6: "- 1022 \<le> int j - int k + 6" using assms(4) by simp
  obtain r where "fl (c * 100) = Finite r" "2 powi (int j - int k + 6) \<le> r"
    using fl_bounds [OF lo2 hi2 jk6] by auto
  then show ?thesis
    by (simp only: a(1) b(1) div c(1) mul) blast
qed

lemma steal_perc_zero_divisor:
  assumes "sd \<noteq> 0"
  shows "dmul (ddiv (double_of_u64 sd) (double_of_u64 0)) (Finite 100) = PlusInf"
proof -
  have "2 ^ 0 \<le> unat sd" using assms by (simp add: unat_gt_0 Suc_le_eq)
  moreover have "unat sd \<le> 2 ^ 64"
    using unsigned_less [of sd, where 'a = nat] by simp
  ultimately obtain a where a: "double_of_u64 sd = Finite a" "2 ^ 0 \<le> a"
    using double_of_u64_bounds [of 0 sd 64] by auto
  then have "0 < a" by simp
  then show ?thesis by (simp add: a(1))
qed

lemma wrapped_difference:
  fixes a b :: u64
  assumes "a < b"
  shows "unat (a - b) = 2 ^ 64 - (unat b - unat a)"
proof -
  have ab: "unat a < unat b" using assms by (simp add: word_less_nat_alt)
  have b: "unat b < 2 ^ 64" using unsigned_less [of b, where 'a = nat] by simp
  have "a - b = a + (- b)" by simp
  have "unat (a - b) = (unat a + (2 ^ 64 - unat b)) mod 2 ^ 64"
  proof -
    have "unat (a - b) = (unat a + 2 ^ 64 - unat b) mod 2 ^ 64"
      using unat_sub_if' [of a b] ab b by (simp split: if_splits)
    then show ?thesis using b by simp
  qed
  also have "unat a + (2 ^ 64 - unat b) = 2 ^ 64 - (unat b - unat a)"
    using ab b by simp
  also have "(2 ^ 64 - (unat b - unat a)) mod 2 ^ 64 = 2 ^ 64 - (unat b - unat a)"
    using ab by simp
  finally show ?thesis .
qed

section \<open>The properties of the specification\<close>

text \<open>
  Claim C1, as amended. The source has no test of the elapsed time before the division:
  \<open>steal_perc\<close> is computed by the floating-point division in every iteration that gets
  past \<open>poll\<close>, and with a zero elapsed time the divisor is zero. The division does not
  trap: the result is a NaN or an infinity, and the iteration goes on. Since a zero
  elapsed time is never above \<open>tv_max_allowed_diff\<close>, such an iteration is not classified:
  it logs neither the \<open>Not scheduled\<close> line nor the steal warning, and it leaves
  \<open>times_not_scheduled\<close> as it was. Its only report is the debug line written before
  \<open>poll\<close>. The theorem after this one shows the division by zero at a concrete input,
  against the claim as it was stated (the percentage is not computed by division).
\<close>

theorem zero_elapsed_not_classified:
  assumes "nano_stealtime_get (use_vmguestlib_stealtime cfg) (src_prev it) = Inr steal_prev"
    and "nano_stealtime_get (use_vmguestlib_stealtime cfg) (src_now it) = Inr steal_now"
    and "\<not> (poll_res it = - 1 \<and> poll_errno it \<noteq> EINTR)"
    and "elapsed it = 0"
  shows "\<exists>ev s' m. poll_body cfg s it = (ev, Continue s')
     \<and> m = measure_gap (nano_current_get (clock_prev it)) (nano_current_get (clock_now it))
              steal_prev steal_now
     \<and> tv_diff m = 0
     \<and> (steal_perc m = NaN \<or> steal_perc m = PlusInf)
     \<and> filter is_not_scheduled ev = [] \<and> filter is_steal_warning ev = []
     \<and> length (filter is_debug_now ev) = 1
     \<and> times_not_scheduled s' = times_not_scheduled s"
proof -
  let ?p = "nano_current_get (clock_prev it)"
  let ?n = "nano_current_get (clock_now it)"
  let ?m = "measure_gap ?p ?n steal_prev steal_now"
  from assms(4) have eq: "?n = ?p" by (simp add: elapsed_def)
  obtain ev1 s1 where st: "show_statistics cfg (deliver (sig_body it) s) it = (ev1, s1)"
    by (cases "show_statistics cfg (deliver (sig_body it) s) it")
  have cl: "classify cfg (clamp_poll_timeout s1) ?m = ([], clamp_poll_timeout s1)"
    by (simp add: classify_def eq)
  have pb: "poll_body cfg s it =
      (ev1 @ [LogDebugNow ?p (tv_max_allowed_diff cfg) (poll_timeout s1) steal_prev,
              SysPoll (poll_timeout (clamp_poll_timeout s1))], Continue (clamp_poll_timeout s1))"
    using assms(1-3) st cl by (auto simp: poll_body_def Let_def)
  have e1: "filter is_not_scheduled ev1 = [] \<and> filter is_steal_warning ev1 = []
      \<and> filter is_debug_now ev1 = []"
    using st by (auto simp: show_statistics_def print_statistics_def Let_def split: if_splits)
  have "steal_perc ?m = NaN \<or> steal_perc ?m = PlusInf"
    unfolding eq by (rule steal_perc_zero_elapsed)
  moreover have "tv_diff ?m = 0" by (simp add: eq)
  moreover have "times_not_scheduled (clamp_poll_timeout s1) = times_not_scheduled s"
    using show_statistics_state [OF st] by simp
  ultimately show ?thesis
    using pb e1 by simp
qed

theorem zero_elapsed_divides:
  "tv_diff (measure_gap 10000000000 10000000000 100000000 300000000) = 0
   \<and> double_of_u64 (tv_diff (measure_gap 10000000000 10000000000 100000000 300000000)) = Finite 0
   \<and> steal_perc (measure_gap 10000000000 10000000000 100000000 300000000) = PlusInf"
proof -
  have "fl 200000000 = Finite 200000000" by code_simp
  then show ?thesis
    by (simp add: measure_gap_def double_of_u64_def)
qed

theorem zero_elapsed_not_classified_witness:
  "(\<exists>ev s'. poll_body example_config example_state
       (late_iteration\<lparr>clock_now := \<lparr>tv_sec = 10, tv_nsec = 0\<rparr>\<rparr>) = (ev, Continue s')
     \<and> filter is_not_scheduled ev = []
     \<and> times_not_scheduled s' = times_not_scheduled example_state)
   \<and> elapsed (late_iteration\<lparr>clock_now := \<lparr>tv_sec = 10, tv_nsec = 0\<rparr>\<rparr>) = 0"
proof -
  let ?it = "late_iteration\<lparr>clock_now := \<lparr>tv_sec = 10, tv_nsec = 0\<rparr>\<rparr>"
  have a: "nano_stealtime_get (use_vmguestlib_stealtime example_config) (src_prev ?it)
     = Inr 100000000"
    using late_iteration_sources(1) by simp
  have b: "nano_stealtime_get (use_vmguestlib_stealtime example_config) (src_now ?it)
     = Inr 300000000"
    using late_iteration_sources(2) by simp
  have c: "\<not> (poll_res ?it = - 1 \<and> poll_errno ?it \<noteq> EINTR)"
    by (simp add: late_iteration_def)
  have d: "elapsed ?it = 0"
    by (simp add: elapsed_def late_iteration_def)
  from zero_elapsed_not_classified [OF a b c d, of example_state] d
  show ?thesis by blast
qed

text \<open>
  Claim C2. In an iteration that runs to its end, with the elapsed time \<open>E\<close>
  (\<open>tv_now - tv_prev\<close>) and the maximum gap \<open>G\<close> (\<open>tv_max_allowed_diff\<close>, in
  nanoseconds): the \<open>Not scheduled\<close> line is logged if and only if \<open>E > G\<close>, the counter
  changes if and only if \<open>E > G\<close>, and \<open>E = G\<close> is not an overrun.
\<close>

theorem overrun_iff_elapsed_exceeds_gap:
  assumes "poll_body cfg s it = (ev, Continue s')"
  shows "((\<exists>e \<in> set ev. is_not_scheduled e) \<longleftrightarrow> unat (tv_max_allowed_diff cfg) < unat (elapsed it))
    \<and> (times_not_scheduled s' \<noteq> times_not_scheduled s
         \<longleftrightarrow> unat (tv_max_allowed_diff cfg) < unat (elapsed it))
    \<and> (elapsed it = tv_max_allowed_diff cfg
         \<longrightarrow> (\<forall>e \<in> set ev. \<not> is_not_scheduled e) \<and> times_not_scheduled s' = times_not_scheduled s)"
proof -
  have ex: "(\<exists>e \<in> set ev. is_not_scheduled e) \<longleftrightarrow> overruns ev \<noteq> 0"
    by (auto simp: overruns_def filter_empty_conv)
  have all: "(\<forall>e \<in> set ev. \<not> is_not_scheduled e) \<longleftrightarrow> overruns ev = 0"
    by (auto simp: overruns_def filter_empty_conv)
  show ?thesis
    unfolding ex all using poll_body_overruns [OF assms]
    by (auto simp: word_less_nat_alt)
qed

theorem overrun_iff_elapsed_exceeds_gap_witness:
  "(\<exists>e \<in> set (fst (poll_body example_config example_state late_iteration)). is_not_scheduled e)
   \<and> unat (tv_max_allowed_diff example_config) < unat (elapsed late_iteration)
   \<and> times_not_scheduled example_state \<noteq> 1"
  using overrun_iff_elapsed_exceeds_gap [OF late_iteration_body]
  by (simp add: late_iteration_body example_state_fields)

text \<open>
  Claim C3. An iteration adds 1 to \<open>times_not_scheduled\<close> when it is an overrun and 0
  otherwise, and it adds 1 also when the steal warning is logged. Over a run of the loop
  the counter grows by the number of \<open>Not scheduled\<close> lines logged (as a 64-bit value);
  as long as the 64-bit counter cannot wrap around, that is its exact value and the
  counter has not decreased.
\<close>

theorem overrun_counter_steps:
  "(poll_body cfg s it = (ev, Continue s') \<longrightarrow>
      times_not_scheduled s' =
        times_not_scheduled s + (if tv_max_allowed_diff cfg < elapsed it then 1 else 0)
      \<and> ((\<exists>e \<in> set ev. is_steal_warning e) \<longrightarrow>
            times_not_scheduled s' = times_not_scheduled s + 1))
   \<and> (poll_loop cfg s its = (evs, r) \<and> final_state r = Some s'' \<longrightarrow>
        times_not_scheduled s'' = times_not_scheduled s + of_nat (overruns evs)
        \<and> (unat (times_not_scheduled s) + length its < 2 ^ 64 \<longrightarrow>
             unat (times_not_scheduled s'') = unat (times_not_scheduled s) + overruns evs
             \<and> unat (times_not_scheduled s) \<le> unat (times_not_scheduled s'')))"
proof (intro conjI impI)
  assume pb: "poll_body cfg s it = (ev, Continue s')"
  show "times_not_scheduled s' =
        times_not_scheduled s + (if tv_max_allowed_diff cfg < elapsed it then 1 else 0)"
    by (rule poll_body_overruns(2) [OF pb])
  assume w: "\<exists>e \<in> set ev. is_steal_warning e"
  from pb obtain steal_prev steal_now ev1 s1 ev4 where
    st: "show_statistics cfg (deliver (sig_body it) s) it = (ev1, s1)" and
    cl: "classify cfg (clamp_poll_timeout s1)
       (measure_gap (nano_current_get (clock_prev it)) (nano_current_get (clock_now it))
          steal_prev steal_now) = (ev4, s')" and
    ev: "ev = ev1 @ [LogDebugNow (nano_current_get (clock_prev it)) (tv_max_allowed_diff cfg)
                   (poll_timeout s1) steal_prev,
                 SysPoll (poll_timeout (clamp_poll_timeout s1))] @ ev4"
    by (rule poll_body_Continue)
  from st have "\<forall>e \<in> set ev1. \<not> is_steal_warning e"
    by (auto simp: show_statistics_def print_statistics_def Let_def split: if_splits)
  with w ev have "\<exists>e \<in> set ev4. is_steal_warning e" by auto
  with cl have "tv_max_allowed_diff cfg < elapsed it"
    by (auto simp: classify_def elapsed_def split: if_splits)
  with poll_body_overruns(2) [OF pb]
  show "times_not_scheduled s' = times_not_scheduled s + 1" by simp
next
  assume a: "poll_loop cfg s its = (evs, r) \<and> final_state r = Some s''"
  then have c: "times_not_scheduled s'' = times_not_scheduled s + of_nat (overruns evs)"
    and l: "overruns evs \<le> length its"
    using poll_loop_counter [of cfg s its evs r s''] by simp_all
  show "times_not_scheduled s'' = times_not_scheduled s + of_nat (overruns evs)" by (rule c)
  assume b: "unat (times_not_scheduled s) + length its < 2 ^ 64"
  have "unat (times_not_scheduled s'') =
          (unat (times_not_scheduled s) + overruns evs) mod 2 ^ 64"
    by (simp add: c unat_word_ariths unat_of_nat mod_add_right_eq)
  also have "\<dots> = unat (times_not_scheduled s) + overruns evs"
    using b l by simp
  finally show "unat (times_not_scheduled s'') = unat (times_not_scheduled s) + overruns evs" .
  then show "unat (times_not_scheduled s) \<le> unat (times_not_scheduled s'')" by simp
qed

theorem overrun_counter_steps_witness:
  "times_not_scheduled (example_state\<lparr>times_not_scheduled := 1\<rparr>)
     = times_not_scheduled example_state + 1
   \<and> unat (times_not_scheduled (example_state\<lparr>times_not_scheduled := 1\<rparr>)) = 1
   \<and> overruns (fst (poll_loop example_config example_state [late_iteration])) = 1
   \<and> (\<exists>e \<in> set (fst (poll_body example_config example_state late_iteration)).
         is_steal_warning e)"
  using overrun_counter_steps [of example_config example_state late_iteration
      "fst (poll_body example_config example_state late_iteration)"
      "example_state\<lparr>times_not_scheduled := 1\<rparr>"
      "[late_iteration]"
      "fst (poll_loop example_config example_state [late_iteration])"
      "Running (example_state\<lparr>times_not_scheduled := 1\<rparr>)"
      "example_state\<lparr>times_not_scheduled := 1\<rparr>"]
  by (simp add: late_iteration_body late_iteration_loop example_state_fields overruns_def
        del: poll_loop.simps)

text \<open>
  Claim C4. The loop body ends the process only with status 2, and only when \<open>poll\<close>
  returned \<open>-1\<close> with an \<open>errno\<close> other than \<open>EINTR\<close>; when \<open>poll\<close> returns \<open>-1\<close> (and the
  steal time before it could be read), the process exits with status 2 if and only if
  \<open>errno\<close> is not \<open>EINTR\<close>; with \<open>EINTR\<close> the iteration is the one of a \<open>poll\<close> that
  returned 0; and no run of the loop ends the process with another status.
\<close>

theorem poll_failure_fatal_unless_interrupted:
  "(\<forall>ev status. poll_body cfg s it = (ev, Exited status) \<longrightarrow>
       status = 2 \<and> poll_res it = - 1 \<and> poll_errno it \<noteq> EINTR)
   \<and> (\<forall>v. nano_stealtime_get (use_vmguestlib_stealtime cfg) (src_prev it) = Inr v
          \<and> poll_res it = - 1 \<longrightarrow>
          (snd (poll_body cfg s it) = Exited 2 \<longleftrightarrow> poll_errno it \<noteq> EINTR))
   \<and> (poll_errno it = EINTR \<longrightarrow> poll_body cfg s it = poll_body cfg s (it\<lparr>poll_res := 0\<rparr>))
   \<and> (\<forall>evs status. poll_loop cfg s its = (evs, Terminated status) \<longrightarrow> status = 2)"
proof -
  have a: "\<forall>ev status. poll_body cfg s it = (ev, Exited status) \<longrightarrow>
       status = 2 \<and> poll_res it = - 1 \<and> poll_errno it \<noteq> EINTR"
    using poll_body_Exited by blast
  have b: "\<forall>v. nano_stealtime_get (use_vmguestlib_stealtime cfg) (src_prev it) = Inr v
          \<and> poll_res it = - 1 \<longrightarrow>
          (snd (poll_body cfg s it) = Exited 2 \<longleftrightarrow> poll_errno it \<noteq> EINTR)"
  proof (intro allI impI iffI)
    fix v
    assume "snd (poll_body cfg s it) = Exited 2"
    then have "poll_body cfg s it = (fst (poll_body cfg s it), Exited 2)"
      by (simp add: prod_eq_iff)
    from poll_body_Exited [OF this] show "poll_errno it \<noteq> EINTR" by simp
  next
    fix v
    assume "nano_stealtime_get (use_vmguestlib_stealtime cfg) (src_prev it) = Inr v
          \<and> poll_res it = - 1" and "poll_errno it \<noteq> EINTR"
    then show "snd (poll_body cfg s it) = Exited 2"
      by (simp add: poll_body_fatal)
  qed
  have c: "poll_errno it = EINTR \<longrightarrow> poll_body cfg s it = poll_body cfg s (it\<lparr>poll_res := 0\<rparr>)"
    using poll_body_EINTR by blast
  have d: "\<forall>evs status. poll_loop cfg s its = (evs, Terminated status) \<longrightarrow> status = 2"
    using poll_loop_Terminated by blast
  from a b c d show ?thesis by blast
qed

theorem poll_failure_fatal_unless_interrupted_witness:
  "snd (poll_body example_config example_state (late_iteration\<lparr>poll_res := - 1, poll_errno := 9\<rparr>))
     = Exited 2
   \<and> poll_body example_config example_state (late_iteration\<lparr>poll_res := - 1, poll_errno := EINTR\<rparr>)
     = poll_body example_config example_state late_iteration"
proof -
  let ?bad = "late_iteration\<lparr>poll_res := - 1, poll_errno := 9\<rparr>"
  let ?intr = "late_iteration\<lparr>poll_res := - 1, poll_errno := EINTR\<rparr>"
  have src: "nano_stealtime_get (use_vmguestlib_stealtime example_config) (src_prev ?bad)
     = Inr 100000000 \<and> poll_res ?bad = - 1"
    using late_iteration_sources(1) by simp
  have ne: "poll_errno ?bad \<noteq> EINTR"
    by (simp add: EINTR_def)
  have "snd (poll_body example_config example_state ?bad) = Exited 2"
    using poll_failure_fatal_unless_interrupted [of example_config example_state ?bad "[]"]
      src ne by blast
  moreover have "poll_body example_config example_state ?intr
      = poll_body example_config example_state (?intr\<lparr>poll_res := 0\<rparr>)"
    using poll_failure_fatal_unless_interrupted [of example_config example_state ?intr "[]"]
    by simp
  moreover have "?intr\<lparr>poll_res := 0\<rparr> = late_iteration\<lparr>poll_errno := EINTR\<rparr>"
    by (simp add: late_iteration_def)
  moreover have "poll_body example_config example_state (late_iteration\<lparr>poll_errno := EINTR\<rparr>)
      = poll_body example_config example_state late_iteration"
    by (simp add: body_defs example_defs)
  ultimately show ?thesis by simp
qed

text \<open>
  Claim C5. The file starts with \<open>cpu\<close> and eight fields, each a decimal number below
  \<open>2^64\<close> after spaces or tabs, and the text goes on with something that is not a digit
  (the end of the line, further fields, or the end of the file). With \<open>s\<close> the eighth
  field and \<open>hz\<close> the clock tick that \<open>sysconf\<close> returns, or 100 when it returns \<open>-1\<close>,
  the sample is \<open>s * (NO_NS_IN_SEC / hz)\<close> in 64-bit unsigned arithmetic, that is
  \<open>s * (1000000000 div hz)\<close> modulo \<open>2^64\<close>. At 100 Hz a kernel's counter of ticks stays
  below the wrap-around. The line of the specification, \<open>cpu 100 5 50 800 2 1 3 40\<close> at
  100 Hz, gives 400000000.
\<close>

theorem kernel_steal_is_ticks_times_factor:
  assumes "well_formed_fields fs" and "length fs = 8" and "ends_number t"
    and "length (''cpu'' @ fields_text fs) \<le> 4095"
    and "clk \<noteq> 0"
    and "hz = (if clk = - 1 then 100 else clk)"
    and "s = snd (fs ! 7)"
  shows "nano_stealtime_kernel_get (Some (''cpu'' @ fields_text fs @ t)) clk
           = Inr (of_nat s * (NO_NS_IN_SEC div hz))
    \<and> unat (of_nat s * (NO_NS_IN_SEC div hz) :: u64) = (s * (1000000000 div unat hz)) mod 2 ^ 64"
proof -
  obtain l f' where
    fg: "fgets 4096 (''cpu'' @ fields_text fs @ t) = Some ((''cpu'' @ fields_text fs) @ l, f')"
    and cs: "c_string ((''cpu'' @ fields_text fs) @ l) = ''cpu'' @ fields_text fs @ c_string l"
    and en: "ends_number (c_string l)"
    using assms(1,3,4) by (rule first_buffer_of_cpu_line)
  let ?vs = "map (\<lambda>(ws, n). of_nat n :: u64) fs"
  have "fs \<noteq> []" using assms(2) by auto
  then have sc: "sscanf_cpu (c_string ((''cpu'' @ fields_text fs) @ l)) = (8, ?vs)"
    unfolding cs using sscanf_cpu_fields [OF assms(1) en] assms(2) by simp
  have "stat_loop (''cpu'' @ fields_text fs @ t) clk = steal_of_valid_line ?vs clk"
    using fg sc by (rule stat_loop_valid_first_line) simp
  moreover have "scanned_field ?vs 7 = of_nat s"
    using assms(2,7) by (simp add: scanned_field_def case_prod_beta)
  moreover have "hz \<noteq> 0"
    using assms(5,6) by simp
  ultimately have a: "nano_stealtime_kernel_get (Some (''cpu'' @ fields_text fs @ t)) clk
           = Inr (of_nat s * (NO_NS_IN_SEC div hz))"
    using assms(6) by (simp add: nano_stealtime_kernel_get_def steal_of_valid_line_def Let_def)
  have "s < 2 ^ 64"
  proof -
    have "fs ! 7 \<in> set fs" using assms(2) by simp
    with assms(1) have "snd (fs ! 7) < 2 ^ 64"
      by (auto simp: well_formed_fields_def list_all_iff)
    then show ?thesis by (simp add: assms(7))
  qed
  then have "unat (of_nat s :: u64) = s"
    by (simp add: unat_of_nat)
  moreover have "unat (NO_NS_IN_SEC div hz) = 1000000000 div unat hz"
    by (simp add: unat_div NO_NS_IN_SEC_def)
  ultimately have "unat (of_nat s * (NO_NS_IN_SEC div hz) :: u64)
      = (s * (1000000000 div unat hz)) mod 2 ^ 64"
    by (simp add: unat_word_ariths)
  with a show ?thesis by simp
qed

theorem kernel_steal_is_ticks_times_factor_witness:
  "nano_stealtime_kernel_get (Some (''cpu 100 5 50 800 2 1 3 40'' @ [CHR 0x0A])) 100
     = Inr 400000000"
proof -
  have len: "length (''cpu'' @ fields_text spec_example_fields) \<le> 4095"
    by (simp add: spec_example_fields_def decimal.simps)
  have "nano_stealtime_kernel_get
          (Some (''cpu'' @ fields_text spec_example_fields @ [CHR 0x0A])) 100
        = Inr (of_nat 40 * (NO_NS_IN_SEC div 100))"
    using kernel_steal_is_ticks_times_factor [of spec_example_fields "[CHR 0x0A]" 100 100 40]
      spec_example_well_formed len
    by (simp add: ends_number_def isdigit_def) (simp add: spec_example_fields_def)
  then show ?thesis
    by (simp only: spec_example_text) (simp add: NO_NS_IN_SEC_def)
qed

text \<open>
  Claim C6, as amended. The sample is 0, and not a fault, when \<open>fopen\<close> fails, when nothing
  can be read, and when \<open>sscanf\<close> assigns at most four values on every buffer read, in
  particular when no buffer starts with \<open>cpu\<close>; and an iteration that gets these samples
  and no fatal \<open>poll\<close> error runs to its end. The claim as it was stated (the sample is 0
  when the file has no well-formed aggregate line) fails on a file whose first accepted
  line is a per-CPU line: the format accepts \<open>cpu0 1 2 ...\<close> as well, reading the CPU
  number as the first field, as the theorem after this one shows on such a file.
\<close>

theorem degraded_source_yields_zero:
  "nano_stealtime_kernel_get None clk = Inr 0
   \<and> nano_stealtime_kernel_get (Some []) clk = Inr 0
   \<and> ((\<forall>buf \<in> set (fgets_lines f). fst (sscanf_cpu (c_string buf)) \<le> 4) \<longrightarrow>
        nano_stealtime_kernel_get (Some f) clk = Inr 0)
   \<and> ((\<forall>buf \<in> set (fgets_lines f). take 3 buf \<noteq> ''cpu'') \<longrightarrow>
        nano_stealtime_kernel_get (Some f) clk = Inr 0)
   \<and> (\<not> use_vmguestlib_stealtime cfg
        \<and> nano_stealtime_kernel_get (proc_stat (src_prev it)) (sc_clk_tck (src_prev it)) = Inr 0
        \<and> nano_stealtime_kernel_get (proc_stat (src_now it)) (sc_clk_tck (src_now it)) = Inr 0
        \<and> \<not> (poll_res it = - 1 \<and> poll_errno it \<noteq> EINTR) \<longrightarrow>
        (\<exists>ev s'. poll_body cfg s it = (ev, Continue s')))"
proof -
  have a: "nano_stealtime_kernel_get None clk = Inr 0"
    by (simp add: nano_stealtime_kernel_get_def)
  have b: "nano_stealtime_kernel_get (Some []) clk = Inr 0"
    by (simp add: nano_stealtime_kernel_get_def stat_loop.simps [of "[]"] fgets_def)
  have c: "nano_stealtime_kernel_get (Some f) clk = Inr 0"
    if "\<forall>buf \<in> set (fgets_lines f). fst (sscanf_cpu (c_string buf)) \<le> 4"
    using stat_loop_all_rejected [OF that] by (simp add: nano_stealtime_kernel_get_def)
  have d: "nano_stealtime_kernel_get (Some f) clk = Inr 0"
    if "\<forall>buf \<in> set (fgets_lines f). take 3 buf \<noteq> ''cpu''"
  proof (rule c, rule ballI)
    fix buf assume "buf \<in> set (fgets_lines f)"
    with that have "take 3 buf \<noteq> ''cpu''" by blast
    from sscanf_cpu_other_line [OF this] show "fst (sscanf_cpu (c_string buf)) \<le> 4" by simp
  qed
  have e: "\<exists>ev s'. poll_body cfg s it = (ev, Continue s')"
    if "\<not> use_vmguestlib_stealtime cfg
        \<and> nano_stealtime_kernel_get (proc_stat (src_prev it)) (sc_clk_tck (src_prev it)) = Inr 0
        \<and> nano_stealtime_kernel_get (proc_stat (src_now it)) (sc_clk_tck (src_now it)) = Inr 0
        \<and> \<not> (poll_res it = - 1 \<and> poll_errno it \<noteq> EINTR)"
    using that
    by (auto simp: poll_body_def nano_stealtime_get_def Let_def split: prod.splits)
  from a b c d e show ?thesis by blast
qed

theorem per_cpu_line_is_accepted:
  "nano_stealtime_kernel_get
     (Some (''intr 5'' @ [CHR 0x0A] @ ''cpu0 1 2 3 4 5 6 7 8 9 10'' @ [CHR 0x0A])) 100
     = Inr 70000000"
  by (simp add: scan_defs)

theorem degraded_source_yields_zero_witness:
  "nano_stealtime_kernel_get (Some (''intr 5'' @ [CHR 0x0A] @ ''ctxt 7'' @ [CHR 0x0A])) 100 = Inr 0
   \<and> (\<exists>ev s'. poll_body (example_config\<lparr>use_vmguestlib_stealtime := False\<rparr>) example_state
          late_iteration = (ev, Continue s'))"
proof -
  let ?f = "''intr 5'' @ [CHR 0x0A] @ ''ctxt 7'' @ [CHR 0x0A]"
  let ?cfg = "example_config\<lparr>use_vmguestlib_stealtime := False\<rparr>"
  note t = degraded_source_yields_zero [of 100 ?f ?cfg late_iteration example_state]
  have "\<forall>buf \<in> set (fgets_lines ?f). take 3 buf \<noteq> ''cpu''"
    by (simp only: no_cpu_line_buffers) simp
  with t have a: "nano_stealtime_kernel_get (Some ?f) 100 = Inr 0" by blast
  have "\<not> use_vmguestlib_stealtime ?cfg
        \<and> nano_stealtime_kernel_get (proc_stat (src_prev late_iteration))
             (sc_clk_tck (src_prev late_iteration)) = Inr 0
        \<and> nano_stealtime_kernel_get (proc_stat (src_now late_iteration))
             (sc_clk_tck (src_now late_iteration)) = Inr 0
        \<and> \<not> (poll_res late_iteration = - 1 \<and> poll_errno late_iteration \<noteq> EINTR)"
    by (simp add: example_defs nano_stealtime_kernel_get_def)
  with t have "\<exists>ev s'. poll_body ?cfg example_state late_iteration = (ev, Continue s')"
    by blast
  with a show ?thesis by simp
qed

text \<open>
  Claim C7. When the stop flag is set as the loop condition is read (it was set before,
  or SIGINT or SIGTERM arrives before the read), no further iteration begins whatever
  would follow: the loop logs that it stopped and one statistics line, with the time
  since \<open>tv_start\<close> and the counter, and \<open>poll_run\<close> returns. When the signal arrives
  during an iteration, after the loop condition was read, that iteration runs to its
  end with its single \<open>poll\<close>, the flag is still set after it, and the next read of the
  loop condition ends the loop in the same way.
\<close>

theorem stop_flag_ends_loop:
  "(stop_main_loop s \<noteq> 0 \<or> SIGINT \<in> set (sig_top it) \<or> SIGTERM \<in> set (sig_top it) \<longrightarrow>
      poll_loop cfg s (it # its) =
        ([LogStopped,
          LogStatistics (nano_current_get (clock_stats it) - tv_start cfg) (times_not_scheduled s)],
         Returned (deliver (sig_top it) s)))
   \<and> (stop_main_loop (deliver (sig_top it) s) = 0
        \<and> (SIGINT \<in> set (sig_body it) \<or> SIGTERM \<in> set (sig_body it) \<or> stop_main_loop s' \<noteq> 0)
        \<and> poll_body cfg (deliver (sig_top it) s) it = (ev, Continue s') \<longrightarrow>
      stop_main_loop s' \<noteq> 0
      \<and> length (filter is_poll_call ev) = 1
      \<and> poll_loop cfg s (it # it' # its) =
        (ev @ [LogStopped,
               LogStatistics (nano_current_get (clock_stats it') - tv_start cfg)
                 (times_not_scheduled s')],
         Returned (deliver (sig_top it') s')))"
proof (intro conjI impI)
  assume "stop_main_loop s \<noteq> 0 \<or> SIGINT \<in> set (sig_top it) \<or> SIGTERM \<in> set (sig_top it)"
  then have "stop_main_loop (deliver (sig_top it) s) \<noteq> 0"
    by (auto simp: deliver_stop_main_loop)
  then show "poll_loop cfg s (it # its) =
        ([LogStopped,
          LogStatistics (nano_current_get (clock_stats it) - tv_start cfg) (times_not_scheduled s)],
         Returned (deliver (sig_top it) s))"
    by (rule poll_loop_stop_seen)
next
  assume a: "stop_main_loop (deliver (sig_top it) s) = 0
        \<and> (SIGINT \<in> set (sig_body it) \<or> SIGTERM \<in> set (sig_body it) \<or> stop_main_loop s' \<noteq> 0)
        \<and> poll_body cfg (deliver (sig_top it) s) it = (ev, Continue s')"
  then have pb: "poll_body cfg (deliver (sig_top it) s) it = (ev, Continue s')" by simp
  show st: "stop_main_loop s' \<noteq> 0"
  proof (cases "SIGINT \<in> set (sig_body it) \<or> SIGTERM \<in> set (sig_body it)")
    case True
    then have "stop_main_loop (deliver (sig_body it) (deliver (sig_top it) s)) \<noteq> 0"
      by (auto simp: deliver_stop_main_loop)
    from poll_body_keeps_stop [OF pb this] show ?thesis .
  next
    case False
    with a show ?thesis by simp
  qed
  show "length (filter is_poll_call ev) = 1"
    by (rule poll_body_one_poll_call [OF pb])
  from st have "stop_main_loop (deliver (sig_top it') s') \<noteq> 0"
    by (rule deliver_keeps_stop)
  from poll_loop_stop_seen [OF this, of cfg its] a pb
  show "poll_loop cfg s (it # it' # its) =
        (ev @ [LogStopped,
               LogStatistics (nano_current_get (clock_stats it') - tv_start cfg)
                 (times_not_scheduled s')],
         Returned (deliver (sig_top it') s'))"
    by (simp del: poll_loop.simps add: poll_loop.simps(2) [of cfg s it] Let_def)
qed

theorem stop_flag_ends_loop_witness:
  "poll_loop example_config example_state
     [late_iteration\<lparr>sig_body := [SIGTERM]\<rparr>, late_iteration, late_iteration] =
     ([LogDebugNow 10000000000 200000000 66 100000000, SysPoll 66,
       LogNotScheduled 300000000 200000000 200000000
         (steal_perc (measure_gap 10000000000 10300000000 100000000 300000000)),
       LogStealWarning (Finite 10),
       LogStopped, LogStatistics 10000000000 1],
      Returned (example_state\<lparr>times_not_scheduled := 1, stop_main_loop := 1\<rparr>))
   \<and> poll_loop example_config example_state
     [late_iteration\<lparr>sig_top := [SIGINT]\<rparr>, late_iteration] =
     ([LogStopped, LogStatistics 10000000000 0],
      Returned (example_state\<lparr>stop_main_loop := 1\<rparr>))"
proof -
  let ?it = "late_iteration\<lparr>sig_body := [SIGTERM]\<rparr>"
  let ?ev = "[LogDebugNow 10000000000 200000000 66 100000000, SysPoll 66,
       LogNotScheduled 300000000 200000000 200000000
         (steal_perc (measure_gap 10000000000 10300000000 100000000 300000000)),
       LogStealWarning (Finite 10)]"
  let ?s' = "example_state\<lparr>times_not_scheduled := 1, stop_main_loop := 1\<rparr>"
  have top: "sig_top late_iteration = []"
    by (simp add: late_iteration_def)
  have pb: "poll_body example_config example_state ?it = (?ev, Continue ?s')"
    by (simp add: body_defs example_defs late_steal_alarm)
  have "poll_loop example_config example_state [?it, late_iteration, late_iteration] =
      (?ev @ [LogStopped,
              LogStatistics (nano_current_get (clock_stats late_iteration) - tv_start example_config)
                (times_not_scheduled ?s')],
       Returned (deliver (sig_top late_iteration) ?s'))"
    using stop_flag_ends_loop [where s = example_state and it = ?it and cfg = example_config
        and s' = ?s' and ev = ?ev and it' = late_iteration and its = "[late_iteration]"] pb
    by (simp add: top example_state_fields del: poll_loop.simps)
  moreover have "nano_current_get (clock_stats late_iteration) - tv_start example_config
      = 10000000000"
    by (simp add: body_defs example_defs)
  moreover have "poll_loop example_config example_state
     [late_iteration\<lparr>sig_top := [SIGINT]\<rparr>, late_iteration] =
     ([LogStopped,
       LogStatistics (nano_current_get (clock_stats (late_iteration\<lparr>sig_top := [SIGINT]\<rparr>))
          - tv_start example_config) (times_not_scheduled example_state)],
      Returned (deliver (sig_top (late_iteration\<lparr>sig_top := [SIGINT]\<rparr>)) example_state))"
    using stop_flag_ends_loop [where s = example_state
        and it = "late_iteration\<lparr>sig_top := [SIGINT]\<rparr>"
        and cfg = example_config and its = "[late_iteration]"]
    by (simp del: poll_loop.simps)
  ultimately show ?thesis
    by (simp add: top example_state_fields del: poll_loop.simps)
qed

text \<open>
  Claim C8. Every timeout that \<open>poll_run\<close> passes to \<open>poll\<close> is non-negative, and for a
  \<open>timeout\<close> of 1 to 3,600,000 milliseconds it is \<open>timeout\<close> divided by 3, rounded down.
\<close>

theorem poll_timeout_is_third_of_gap:
  assumes "poll_run use_gl thr timeout g ts its = (ev, r)"
    and "SysPoll t \<in> set ev"
  shows "0 \<le> sint t
    \<and> (1 \<le> unat timeout \<and> unat timeout \<le> MAX_TIMEOUT \<longrightarrow> sint t = int (unat timeout div 3))"
proof -
  let ?cfg = "\<lparr>use_vmguestlib_stealtime = use_gl, max_steal_threshold = thr,
                 tv_max_allowed_diff = timeout * NO_NS_IN_MSEC,
                 tv_start = nano_current_get ts\<rparr>"
  let ?s = "g\<lparr>poll_timeout := ucast (timeout div 3)\<rparr>"
  obtain ev' where pl: "poll_loop ?cfg ?s its = (ev', r)" and ev: "ev = LogRunning timeout thr # ev'"
    using assms(1) by (auto simp: poll_run_def Let_def split: prod.splits)
  from assms(2) ev have "SysPoll t \<in> set ev'" by simp
  with poll_loop_poll_calls [OF pl] have t: "t = poll_timeout (clamp_poll_timeout ?s)"
    by fastforce
  have nonneg: "0 \<le> sint t"
    unfolding t by (rule clamp_poll_timeout_nonneg)
  have "sint t = int (unat timeout div 3)" if "unat timeout \<le> MAX_TIMEOUT"
  proof -
    have "sint (poll_timeout ?s) = int (unat timeout div 3)"
      using poll_timeout_third [OF that] by simp
    then show ?thesis
      unfolding t by (simp add: clamp_poll_timeout_value)
  qed
  with nonneg show ?thesis by simp
qed

theorem poll_timeout_is_third_of_gap_witness:
  "SysPoll 66 \<in> set (fst (poll_run True (Finite 10) 200 example_state \<lparr>tv_sec = 0, tv_nsec = 0\<rparr>
                             [late_iteration]))
   \<and> sint (66 :: c_int) = int (unat (200 :: u64) div 3) \<and> unat (200 :: u64) \<le> MAX_TIMEOUT"
proof -
  let ?run = "poll_run True (Finite 10) 200 example_state \<lparr>tv_sec = 0, tv_nsec = 0\<rparr>
                [late_iteration]"
  have cfg: "\<lparr>use_vmguestlib_stealtime = True, max_steal_threshold = Finite 10,
       tv_max_allowed_diff = 200 * NO_NS_IN_MSEC,
       tv_start = nano_current_get \<lparr>tv_sec = 0, tv_nsec = 0\<rparr>\<rparr> = example_config"
    by (simp add: example_config_def NO_NS_IN_MSEC_def nano_current_get_def)
  have st: "example_state\<lparr>poll_timeout := 66\<rparr> = example_state"
    by (simp add: example_state_def)
  have run: "?run = (LogRunning 200 (Finite 10) # fst (poll_loop example_config example_state [late_iteration]),
                      snd (poll_loop example_config example_state [late_iteration]))"
    by (simp add: poll_run_def cfg st split: prod.splits del: poll_loop.simps)
  then have mem: "SysPoll 66 \<in> set (fst ?run)"
    by (simp add: late_iteration_loop del: poll_loop.simps)
  have "?run = (fst ?run, snd ?run)" by simp
  from poll_timeout_is_third_of_gap [OF this mem] mem
  show ?thesis by (simp add: MAX_TIMEOUT_def)
qed

text \<open>
  Claim C9. \<open>steal_diff\<close> is the 64-bit unsigned difference \<open>steal_now - steal_prev\<close>.
  When the sample after \<open>poll\<close> is below the one before it, the difference is \<open>2^64\<close>
  minus the drop, and the percentage computed from it is above zero (an infinity when
  the elapsed time is zero), never a NaN, zero or negative. When the drop is at most
  \<open>2^63\<close> ns and the elapsed time at most \<open>2^k\<close> ns, the percentage is above \<open>2^(68-k)\<close>:
  above \<open>2^31\<close> for an elapsed time of up to 137 seconds. The guest library variant
  returns 0 when either of its two queries fails, which gives such a drop as soon as the
  sample before was not 0.
\<close>

theorem steal_delta_wraps_around:
  assumes "steal_now < steal_prev"
    and "m = measure_gap tv_prev tv_now steal_prev steal_now"
  shows "steal_diff m = steal_now - steal_prev
    \<and> unat (steal_diff m) = 2 ^ 64 - (unat steal_prev - unat steal_now)
    \<and> dgt (steal_perc m) (Finite 0)
    \<and> (unat steal_prev - unat steal_now \<le> 2 ^ 63 \<and> unat (tv_diff m) \<le> 2 ^ k \<and> k \<le> 64 \<longrightarrow>
          dgt (steal_perc m) (Finite (2 ^ (68 - k))))
    \<and> (update_info \<noteq> VMGUESTLIB_ERROR_SUCCESS \<or> get_cpu_stolen \<noteq> VMGUESTLIB_ERROR_SUCCESS \<longrightarrow>
          nano_stealtime_vmguestlib_get update_info get_cpu_stolen stolen_ms = 0)"
proof -
  let ?sd = "steal_now - steal_prev"
  let ?td = "tv_now - tv_prev"
  have sd: "steal_diff m = ?sd" and td: "tv_diff m = ?td"
    by (simp_all add: assms(2))
  have sp: "steal_perc m = dmul (ddiv (double_of_u64 ?sd) (double_of_u64 ?td)) (Finite 100)"
    by (simp add: assms(2) measure_gap_def Let_def)
  have u: "unat ?sd = 2 ^ 64 - (unat steal_prev - unat steal_now)"
    using assms(1) by (rule wrapped_difference)
  have lt: "unat steal_now < unat steal_prev"
    using assms(1) by (simp add: word_less_nat_alt)
  have p: "unat steal_prev < 2 ^ 64"
    using unsigned_less [of steal_prev, where 'a = nat] by simp
  have sd1: "2 ^ 0 \<le> unat ?sd" using u lt p by simp
  then have sd0: "?sd \<noteq> 0" by (auto simp: unat_eq_zero)
  have t64: "unat ?td \<le> 2 ^ 64"
    using unsigned_less [of ?td, where 'a = nat] by simp
  have pos: "dgt (steal_perc m) (Finite 0)"
  proof (cases "?td = 0")
    case True
    then show ?thesis using steal_perc_zero_divisor [OF sd0] by (simp add: sp)
  next
    case False
    then have "0 < unat ?td" by (simp add: unat_gt_0)
    from steal_perc_bounds [OF sd1 this t64]
    obtain r where r: "steal_perc m = Finite r" "2 powi (int 0 - int 64 + 6) \<le> r"
      unfolding sp by auto
    have "(0::rat) < 2 powi (int 0 - int 64 + 6)" by (rule zero_less_power_int) simp
    from this r(2) have "0 < r" by (rule less_le_trans)
    then show ?thesis by (simp add: r(1))
  qed
  have big: "dgt (steal_perc m) (Finite (2 ^ (68 - k)))"
    if h: "unat steal_prev - unat steal_now \<le> 2 ^ 63 \<and> unat (tv_diff m) \<le> 2 ^ k \<and> k \<le> 64"
  proof (cases "?td = 0")
    case True
    then show ?thesis using steal_perc_zero_divisor [OF sd0] by (simp add: sp)
  next
    case False
    then have t0: "0 < unat ?td" by (simp add: unat_gt_0)
    from h have d: "unat steal_prev - unat steal_now \<le> 2 ^ 63" by simp
    have "(2::nat) ^ 64 = 2 ^ 63 + 2 ^ 63" by simp
    with d have "2 ^ 63 \<le> unat ?sd" unfolding u by linarith
    moreover from h have "unat ?td \<le> 2 ^ k" "k \<le> 64" by (simp_all add: td)
    ultimately obtain r where r: "steal_perc m = Finite r" "2 powi (int 63 - int k + 6) \<le> r"
      using steal_perc_bounds [where j = 63 and k = k, OF _ t0] unfolding sp by auto
    from h have k: "k \<le> 64" by simp
    have "int 63 - int k + 6 = int (69 - k)" using k by simp
    then have "(2::rat) powi (int 63 - int k + 6) = 2 ^ (69 - k)"
      by (simp only: power_int_of_nat)
    with r(2) have le: "2 ^ (69 - k) \<le> r" by (simp only:)
    have "(2::rat) ^ (68 - k) < 2 ^ (69 - k)"
      using k by (intro power_strict_increasing) simp_all
    from this le have "2 ^ (68 - k) < r" by (rule less_le_trans)
    then show ?thesis by (simp add: r(1))
  qed
  have gl: "nano_stealtime_vmguestlib_get update_info get_cpu_stolen stolen_ms = 0"
    if "update_info \<noteq> VMGUESTLIB_ERROR_SUCCESS \<or> get_cpu_stolen \<noteq> VMGUESTLIB_ERROR_SUCCESS"
    using that by (auto simp: nano_stealtime_vmguestlib_get_def)
  from sd u pos big gl show ?thesis by (simp only: sd) blast
qed

theorem steal_delta_wraps_around_witness:
  "nano_stealtime_vmguestlib_get (VMGUESTLIB_ERROR_OTHER 1) VMGUESTLIB_ERROR_SUCCESS 7 = 0
   \<and> unat (steal_diff (measure_gap 10000000000 10066000000 5000000000 0))
       = 18446744068709551616
   \<and> dgt (steal_perc (measure_gap 10000000000 10066000000 5000000000 0)) (Finite (2 ^ 42))"
proof -
  define m where "m = measure_gap 10000000000 10066000000 5000000000 0"
  have lt: "(0 :: u64) < 5000000000" by simp
  note t = steal_delta_wraps_around [OF lt m_def, of 26 "VMGUESTLIB_ERROR_OTHER 1"
      VMGUESTLIB_ERROR_SUCCESS 7]
  have h: "unat (5000000000 :: u64) - unat (0 :: u64) \<le> 2 ^ 63 \<and> unat (tv_diff m) \<le> 2 ^ 26
      \<and> (26 :: nat) \<le> 64"
    by (simp add: m_def)
  from t h have "dgt (steal_perc m) (Finite (2 ^ (68 - 26)))" by blast
  then have a: "dgt (steal_perc m) (Finite (2 ^ 42))" by simp
  from t have "unat (steal_diff m) = 2 ^ 64 - (unat (5000000000 :: u64) - unat (0 :: u64))"
    by blast
  then have b: "unat (steal_diff m) = 18446744068709551616" by simp
  from t have c: "nano_stealtime_vmguestlib_get (VMGUESTLIB_ERROR_OTHER 1)
      VMGUESTLIB_ERROR_SUCCESS 7 = 0"
    by blast
  from a b c show ?thesis by (simp only: m_def)
qed

text \<open>
  Claim C10. The file starts with \<open>cpu\<close> and five to seven fields, and the line or the
  file ends there. Then \<open>sscanf\<close> returns the number of fields, which is above 4: the line
  is valid, the variable \<open>s_steal\<close> still holds its initial 0, and the sample is 0 whatever
  follows in the file (the clock tick not being 0).
\<close>

theorem truncated_cpu_line_yields_zero:
  assumes "well_formed_fields fs" and "5 \<le> length fs" and "length fs \<le> 7"
    and "t = [] \<or> (\<exists>r. t = CHR 0x0A # r)"
    and "length (''cpu'' @ fields_text fs) \<le> 4095"
    and "clk \<noteq> 0"
  shows "\<exists>buf f' vs. fgets 4096 (''cpu'' @ fields_text fs @ t) = Some (buf, f')
      \<and> sscanf_cpu (c_string buf) = (int (length fs), vs)
      \<and> vs = map (\<lambda>(ws, n). of_nat n) fs
      \<and> scanned_field vs 7 = 0
      \<and> nano_stealtime_kernel_get (Some (''cpu'' @ fields_text fs @ t)) clk = Inr 0"
proof -
  have en: "ends_number t"
    using assms(4) by (auto simp: ends_number_def isdigit_def)
  obtain l f' where
    fg: "fgets 4096 (''cpu'' @ fields_text fs @ t) = Some ((''cpu'' @ fields_text fs) @ l, f')"
    and cs: "c_string ((''cpu'' @ fields_text fs) @ l) = ''cpu'' @ fields_text fs @ c_string l"
    and el: "ends_number (c_string l)"
    and l: "l = fst (take_line (4095 - length (''cpu'' @ fields_text fs)) t)"
    using assms(1) en assms(5) by (rule first_buffer_of_cpu_line)
  have "l = [] \<or> l = [CHR 0x0A]"
    using assms(4) take_line_newline unfolding l by (cases "4095 - length (''cpu'' @ fields_text fs)") auto
  then have "c_string l = [] \<or> c_string l = [CHR 0x0A]"
    by (auto simp: c_string_def)
  then have "\<forall>c \<in> set (c_string l). isspace c"
    by (auto simp: isspace_def)
  then have no: "scan_numbers (8 - length fs) (c_string l) = []"
    by (rule scan_numbers_no_input)
  let ?vs = "map (\<lambda>(ws, n). of_nat n :: u64) fs"
  have "fs \<noteq> []" using assms(2) by auto
  then have sc: "sscanf_cpu (c_string ((''cpu'' @ fields_text fs) @ l)) = (int (length fs), ?vs)"
    unfolding cs using sscanf_cpu_fields [OF assms(1) el] assms(3) by (simp add: no)
  have "stat_loop (''cpu'' @ fields_text fs @ t) clk = steal_of_valid_line ?vs clk"
    using fg sc by (rule stat_loop_valid_first_line) (use assms(2) in simp)
  moreover have z: "scanned_field ?vs 7 = 0"
    using assms(3) by (simp add: scanned_field_def)
  ultimately have "nano_stealtime_kernel_get (Some (''cpu'' @ fields_text fs @ t)) clk = Inr 0"
    using assms(6) by (simp add: nano_stealtime_kernel_get_def steal_of_valid_line_def Let_def)
  with fg sc z show ?thesis by blast
qed

theorem truncated_cpu_line_yields_zero_witness:
  "nano_stealtime_kernel_get
     (Some (''cpu 1 2 3 4 5'' @ [CHR 0x0A] @ ''cpu 1 2 3 4 5 6 7 8 9 10'' @ [CHR 0x0A])) 100
     = Inr 0"
proof -
  define rest where "rest = CHR 0x0A # ''cpu 1 2 3 4 5 6 7 8 9 10'' @ [CHR 0x0A]"
  have wf: "well_formed_fields truncated_example_fields"
    by (simp add: truncated_example_fields_def blank_def)
  have len: "length (''cpu'' @ fields_text truncated_example_fields) \<le> 4095"
    by (simp add: truncated_example_fields_def decimal.simps)
  have line: "''cpu'' @ fields_text truncated_example_fields @ rest
      = ''cpu 1 2 3 4 5'' @ [CHR 0x0A] @ ''cpu 1 2 3 4 5 6 7 8 9 10'' @ [CHR 0x0A]"
    by (simp add: truncated_example_fields_def decimal.simps digit_char_numerals rest_def)
  have n: "5 \<le> length truncated_example_fields" "length truncated_example_fields \<le> 7"
    by (simp_all add: truncated_example_fields_def)
  have t: "rest = [] \<or> (\<exists>r. rest = CHR 0x0A # r)"
    by (simp add: rest_def)
  have c: "(100 :: c_long) \<noteq> 0" by simp
  have "nano_stealtime_kernel_get (Some (''cpu'' @ fields_text truncated_example_fields @ rest)) 100
      = Inr 0"
    using truncated_cpu_line_yields_zero [OF wf n t len c] by blast
  then show ?thesis by (simp only: line)
qed

end
